theory Spec2Isabelle
  imports Complex_Main "HOL-Library.AList" "HOL-Library.Multiset"
begin

section \<open>JavaScript values\<close>

text \<open>
  Values and type descriptors of lwrpc are plain JavaScript data: what one side passes to
  \<^verbatim>\<open>send\<close> is what the other side's receive handler gets. A descriptor is itself such a
  value (\<^verbatim>\<open>0\<close>, \<^verbatim>\<open>1\<close>, \<^verbatim>\<open>2\<close>, \<^verbatim>\<open>3\<close>, an array, or an object), and \<^verbatim>\<open>validate\<close> inspects it
  with \<^verbatim>\<open>typeof\<close>, \<^verbatim>\<open>Array.isArray\<close>, \<^verbatim>\<open>hasOwnProperty\<close>, \<^verbatim>\<open>Object.keys\<close> and
  \<^verbatim>\<open>Object.values\<close>, so one datatype serves for both.

  An object is the list of its own enumerable properties in the order \<^verbatim>\<open>Object.keys\<close>
  yields them; its prototype is \<^verbatim>\<open>Object.prototype\<close>. Numbers are rationals: the code only
  asks whether something is a number and whether a descriptor tag equals one of
  \<^verbatim>\<open>0\<close> .. \<^verbatim>\<open>6\<close>. The characters of a string stand for its UTF-16 code units.
\<close>

datatype jsval =
    JUndefined
  | JNull
  | JBool bool
  | JNum rat
  | JStr string
  | JArr "jsval list"
  | JObj "(string \<times> jsval) list"

text \<open>A thrown exception: the \<^verbatim>\<open>TypeError\<close> of the runtime, or \<^verbatim>\<open>new Error(message)\<close>.\<close>

datatype jsexn = TypeError | Error string

text \<open>
  \<^verbatim>\<open>
  const isArray = Array.isArray;
  const isString = (x) => typeof x === 'string';
  const isNumber = (x) => typeof x === 'number';
  const isBool = (x) => typeof x === 'boolean';
  const isObject = (x) => typeof x === 'object' && !isArray(x);
  \<close>
  \<^verbatim>\<open>typeof null\<close> is \<^verbatim>\<open>'object'\<close>, so \<open>isObject\<close> holds of \<open>JNull\<close>.
\<close>

fun isArray :: "jsval \<Rightarrow> bool" where
  "isArray (JArr xs) = True"
| "isArray _ = False"

fun isString :: "jsval \<Rightarrow> bool" where
  "isString (JStr s) = True"
| "isString _ = False"

fun isNumber :: "jsval \<Rightarrow> bool" where
  "isNumber (JNum n) = True"
| "isNumber _ = False"

fun isBool :: "jsval \<Rightarrow> bool" where
  "isBool (JBool b) = True"
| "isBool _ = False"

fun isObject :: "jsval \<Rightarrow> bool" where
  "isObject JNull = True"
| "isObject (JObj kvs) = True"
| "isObject _ = False"

text \<open>The property keys of the elements of an array or a string: \<^verbatim>\<open>"0"\<close>, \<^verbatim>\<open>"1"\<close>, ...\<close>

definition digit_char :: "nat \<Rightarrow> char" where
  "digit_char d = ''0123456789'' ! d"

fun index_key :: "nat \<Rightarrow> string" where
  "index_key n =
     (if n < 10 then [digit_char n] else index_key (n div 10) @ [digit_char (n mod 10)])"

declare index_key.simps [simp del]

definition index_keys :: "nat \<Rightarrow> string list" where
  "index_keys n = map index_key [0..<n]"

definition chars_of :: "string \<Rightarrow> jsval list" where
  "chars_of s = map (\<lambda>c. JStr [c]) s"

text \<open>
  \<^verbatim>\<open>Object.keys(x)\<close> and \<^verbatim>\<open>Object.values(x)\<close>: a \<^verbatim>\<open>TypeError\<close> on \<^verbatim>\<open>null\<close> and
  \<^verbatim>\<open>undefined\<close>, nothing for a number or a boolean, the indices (the characters) of a
  string, the indices (the elements) of an array, the own properties of an object.
\<close>

fun object_keys :: "jsval \<Rightarrow> jsexn + string list" where
  "object_keys JUndefined = Inl TypeError"
| "object_keys JNull = Inl TypeError"
| "object_keys (JBool b) = Inr []"
| "object_keys (JNum n) = Inr []"
| "object_keys (JStr s) = Inr (index_keys (length s))"
| "object_keys (JArr xs) = Inr (index_keys (length xs))"
| "object_keys (JObj kvs) = Inr (map fst kvs)"

fun object_values :: "jsval \<Rightarrow> jsexn + jsval list" where
  "object_values JUndefined = Inl TypeError"
| "object_values JNull = Inl TypeError"
| "object_values (JBool b) = Inr []"
| "object_values (JNum n) = Inr []"
| "object_values (JStr s) = Inr (chars_of s)"
| "object_values (JArr xs) = Inr xs"
| "object_values (JObj kvs) = Inr (map snd kvs)"

text \<open>
  \<^verbatim>\<open>x.hasOwnProperty(k)\<close>. Reading the member \<^verbatim>\<open>hasOwnProperty\<close> of \<^verbatim>\<open>null\<close> or
  \<^verbatim>\<open>undefined\<close> throws. A number or a boolean is boxed and has no own property. A string and
  an array own their indices and \<^verbatim>\<open>length\<close>. On an object the method comes from
  \<^verbatim>\<open>Object.prototype\<close>, unless the object has an own property of that name: its value is
  data, and calling it throws.
\<close>

fun hasOwnProperty :: "jsval \<Rightarrow> string \<Rightarrow> jsexn + bool" where
  "hasOwnProperty JUndefined k = Inl TypeError"
| "hasOwnProperty JNull k = Inl TypeError"
| "hasOwnProperty (JBool b) k = Inr False"
| "hasOwnProperty (JNum n) k = Inr False"
| "hasOwnProperty (JStr s) k = Inr (k = ''length'' \<or> k \<in> set (index_keys (length s)))"
| "hasOwnProperty (JArr xs) k = Inr (k = ''length'' \<or> k \<in> set (index_keys (length xs)))"
| "hasOwnProperty (JObj kvs) k =
     (if ''hasOwnProperty'' \<in> set (map fst kvs) then Inl TypeError
      else Inr (k \<in> set (map fst kvs)))"

text \<open>
  \<^verbatim>\<open>x[k]\<close> for an own property \<open>k\<close>, and \<^verbatim>\<open>undefined\<close> where \<open>x\<close> has none.
  \<^verbatim>\<open>validate\<close> reads own keys and the keys \<^verbatim>\<open>$c\<close>, \<^verbatim>\<open>$k\<close>, \<^verbatim>\<open>$v\<close>, \<^verbatim>\<open>$t\<close>, which no
  prototype defines.
\<close>

definition lookup_or_undefined :: "(string \<times> jsval) list \<Rightarrow> string \<Rightarrow> jsval" where
  "lookup_or_undefined kvs k = (case map_of kvs k of Some v \<Rightarrow> v | None \<Rightarrow> JUndefined)"

fun get_prop :: "jsval \<Rightarrow> string \<Rightarrow> jsval" where
  "get_prop (JObj kvs) k = lookup_or_undefined kvs k"
| "get_prop (JArr xs) k =
     (if k = ''length'' then JNum (of_nat (length xs))
      else lookup_or_undefined (zip (index_keys (length xs)) xs) k)"
| "get_prop (JStr s) k =
     (if k = ''length'' then JNum (of_nat (length s))
      else lookup_or_undefined (zip (index_keys (length s)) (chars_of s)) k)"
| "get_prop _ k = JUndefined"

text \<open>
  \<^verbatim>\<open>xs.every(f)\<close> and \<^verbatim>\<open>xs.some(f)\<close> where \<open>f\<close> may throw: the elements are visited in
  order, the first exception escapes, and the first \<^verbatim>\<open>false\<close> (\<^verbatim>\<open>true\<close>) ends the
  traversal. \<open>and_e a b\<close> is \<^verbatim>\<open>a && b\<close>.
\<close>

fun every_e :: "('a \<Rightarrow> jsexn + bool) \<Rightarrow> 'a list \<Rightarrow> jsexn + bool" where
  "every_e f [] = Inr True"
| "every_e f (x # xs) =
     (case f x of Inl e \<Rightarrow> Inl e | Inr b \<Rightarrow> if b then every_e f xs else Inr False)"

fun some_e :: "('a \<Rightarrow> jsexn + bool) \<Rightarrow> 'a list \<Rightarrow> jsexn + bool" where
  "some_e f [] = Inr False"
| "some_e f (x # xs) =
     (case f x of Inl e \<Rightarrow> Inl e | Inr b \<Rightarrow> if b then Inr True else some_e f xs)"

definition and_e :: "jsexn + bool \<Rightarrow> jsexn + bool \<Rightarrow> jsexn + bool" where
  "and_e a b = (case a of Inl e \<Rightarrow> Inl e | Inr x \<Rightarrow> if x then b else Inr False)"

lemma every_e_cong [fundef_cong]:
  "xs = ys \<Longrightarrow> (\<And>x. x \<in> set ys \<Longrightarrow> f x = g x) \<Longrightarrow> every_e f xs = every_e g ys"
  by (induction ys arbitrary: xs) (auto split: sum.splits)

lemma some_e_cong [fundef_cong]:
  "xs = ys \<Longrightarrow> (\<And>x. x \<in> set ys \<Longrightarrow> f x = g x) \<Longrightarrow> some_e f xs = some_e g ys"
  by (induction ys arbitrary: xs) (auto split: sum.splits)

section \<open>The structural validator\<close>

text \<open>
  \<^verbatim>\<open>
  function validate(value, type) {
      if (isNumber(type)) {
          switch (type) {
              case 0: return value === null;
              case 1: return isString(value);
              case 2: return isNumber(value);
              case 3: return isBool(value);
              default: return false;
          }
      }
      else if (isArray(type)) {
          if (isArray(value)) {
              return (type.length === value.length) &&
                  value.map((v, i) => [v, type[i]])
                      .every(([v, t]) => validate(v, t));
          }
          else { return false; }
      }
      else if (isObject(type)) {
          if (type.hasOwnProperty('$c')) {
              if (isArray(value) && type.$c === 4) {
                  return value.every(v => validate(v, type.$v));
              }
              else if (type.$c === 5 && isObject(value)) {
                  return Object.keys(value).every(k => validate(k, type.$k)) &&
                      Object.values(value).every(v => validate(v, type.$v));
              }
              else if (type.$c === 6) {
                  return Object.values(type.$t).some(t => validate(value, t));
              }
              else { return false; }
          }
          else {
              const vres = value;
              const tres = type;
              return (Object.keys(type).every(k => value.hasOwnProperty(k)) &&
                  Object.keys(value).every(k => type.hasOwnProperty(k)) &&
                  Object.keys(value).every(k => validate(vres[k], tres[k])));
          }
      }
      else { return false; }
  }
  \<close>
  The result is \<open>Inr b\<close> when the function returns \<open>b\<close> and \<open>Inl e\<close> when it throws \<open>e\<close>.
  Every recursive call is on a strictly smaller descriptor, which is the termination
  argument below.
\<close>

lemma size_lookup_or_undefined:
  "size (lookup_or_undefined kvs k) < Suc (size_list (size_prod (\<lambda>x. 0) size) kvs)"
  by (induction kvs) (auto simp: lookup_or_undefined_def)

lemma size_member_list: "t \<in> set ts \<Longrightarrow> size t < Suc (size_list size ts)"
  by (induction ts) auto

lemma size_member_snd:
  "(k, t) \<in> set kvs \<Longrightarrow> size t < Suc (size_list (size_prod (\<lambda>x. 0) size) kvs)"
  by (induction kvs) force+

lemma size_object_values:
  "object_values x = Inr ts \<Longrightarrow> t \<in> set ts \<Longrightarrow> size t \<le> size x"
proof (cases x)
  case (JArr xs)
  assume "object_values x = Inr ts" "t \<in> set ts"
  with JArr show ?thesis using size_member_list [of t xs] by simp
next
  case (JObj kvs)
  assume "object_values x = Inr ts" "t \<in> set ts"
  with JObj obtain k where "(k, t) \<in> set kvs" by auto
  with JObj show ?thesis using size_member_snd [of k t kvs] by simp
qed (auto simp: chars_of_def)

lemma size_get_prop:
  "isObject t \<Longrightarrow> hasOwnProperty t c = Inr b \<Longrightarrow> size (get_prop t k) < size t"
  by (cases t) (simp_all add: size_lookup_or_undefined)

lemma size_union_member:
  assumes "isObject t" "hasOwnProperty t c = Inr b"
    and "object_values (get_prop t k) = Inr ts" "x \<in> set ts"
  shows "size x < size t"
proof -
  have "size x \<le> size (get_prop t k)"
    using assms(3,4) by (rule size_object_values)
  also have "\<dots> < size t"
    using assms(1,2) by (rule size_get_prop)
  finally show ?thesis .
qed

lemma size_zip_right: "(v, t) \<in> set (zip vs ts) \<Longrightarrow> size t < Suc (size_list size ts)"
  using size_member_list [of t ts] by (auto dest: set_zip_rightD)

function validate :: "jsval \<Rightarrow> jsval \<Rightarrow> jsexn + bool" where
  "validate value type =
    (if isNumber type then
       (if type = JNum 0 then Inr (value = JNull)
        else if type = JNum 1 then Inr (isString value)
        else if type = JNum 2 then Inr (isNumber value)
        else if type = JNum 3 then Inr (isBool value)
        else Inr False)
     else if isArray type then
       (case (value, type) of
          (JArr vs, JArr ts) \<Rightarrow>
            and_e (Inr (length ts = length vs))
                  (every_e (\<lambda>(v, t). validate v t) (zip vs ts))
        | _ \<Rightarrow> Inr False)
     else if isObject type then
       (case hasOwnProperty type ''$c'' of
          Inl e \<Rightarrow> Inl e
        | Inr True \<Rightarrow>
            (if isArray value \<and> get_prop type ''$c'' = JNum 4 then
               (case value of
                  JArr vs \<Rightarrow> every_e (\<lambda>v. validate v (get_prop type ''$v'')) vs
                | _ \<Rightarrow> Inr False)
             else if get_prop type ''$c'' = JNum 5 \<and> isObject value then
               (case object_keys value of
                  Inl e \<Rightarrow> Inl e
                | Inr ks \<Rightarrow>
                    (case every_e (\<lambda>k. validate (JStr k) (get_prop type ''$k'')) ks of
                       Inl e \<Rightarrow> Inl e
                     | Inr False \<Rightarrow> Inr False
                     | Inr True \<Rightarrow>
                         (case object_values value of
                            Inl e \<Rightarrow> Inl e
                          | Inr vs \<Rightarrow> every_e (\<lambda>v. validate v (get_prop type ''$v'')) vs)))
             else if get_prop type ''$c'' = JNum 6 then
               (case object_values (get_prop type ''$t'') of
                  Inl e \<Rightarrow> Inl e
                | Inr ts \<Rightarrow> some_e (\<lambda>t. validate value t) ts)
             else Inr False)
        | Inr False \<Rightarrow>
            (case object_keys type of
               Inl e \<Rightarrow> Inl e
             | Inr tks \<Rightarrow>
                 (case every_e (\<lambda>k. hasOwnProperty value k) tks of
                    Inl e \<Rightarrow> Inl e
                  | Inr False \<Rightarrow> Inr False
                  | Inr True \<Rightarrow>
                      (case object_keys value of
                         Inl e \<Rightarrow> Inl e
                       | Inr ks \<Rightarrow>
                           (case every_e (\<lambda>k. hasOwnProperty type k) ks of
                              Inl e \<Rightarrow> Inl e
                            | Inr False \<Rightarrow> Inr False
                            | Inr True \<Rightarrow>
                                every_e (\<lambda>k. validate (get_prop value k) (get_prop type k))
                                  ks)))))
     else Inr False)"
  by pat_completeness auto
termination
proof (relation "measure (\<lambda>(v, t). size t)")
  show "wf (measure (\<lambda>(v, t). size t))" by simp
qed (auto intro: size_get_prop size_union_member size_zip_right)

declare validate.simps [simp del]

text \<open>
  The descriptor helpers:
  \<^verbatim>\<open>
  exports.H = {
      none: 0, string: 1, number: 2, boolean: 3,
      array: (valueType) => ({ $c: 4, $v: valueType }),
      object: (keyType, valueType) => ({ $c: 5, $k: keyType, $v: valueType }),
      union: (...unionTypes) => ({ $c: 6, $t: unionTypes }),
  };
  \<close>
  A fixed structure array is an array of descriptors, a fixed structure object an object
  whose values are descriptors.
\<close>

definition H_none :: jsval where "H_none = JNum 0"
definition H_string :: jsval where "H_string = JNum 1"
definition H_number :: jsval where "H_number = JNum 2"
definition H_boolean :: jsval where "H_boolean = JNum 3"

definition H_array :: "jsval \<Rightarrow> jsval" where
  "H_array valueType = JObj [(''$c'', JNum 4), (''$v'', valueType)]"

definition H_object :: "jsval \<Rightarrow> jsval \<Rightarrow> jsval" where
  "H_object keyType valueType =
     JObj [(''$c'', JNum 5), (''$k'', keyType), (''$v'', valueType)]"

definition H_union :: "jsval list \<Rightarrow> jsval" where
  "H_union unionTypes = JObj [(''$c'', JNum 6), (''$t'', JArr unionTypes)]"

section \<open>The channel engine\<close>

text \<open>
  The five wire messages, with the fields the engine reads and writes:
  \<^verbatim>\<open>
  type Message =
      | { type: 'publish'; name; args: Sendable; returns: Sendable }
      | { type: 'call'; nonce: number; name; args: any }
      | { type: 'result'; nonce: number; value: any }
      | { type: 'error'; nonce: number; message: string }
      | { type: 'expect'; name };
  \<close>
  A nonce is a natural number, the value of a JavaScript number that holds an integer.

  The text of an \<^verbatim>\<open>error\<close> message is a string that the engine writes itself or passes
  on, or the string \<^verbatim>\<open>'Exception: ' + e.toString()\<close> for an exception \<open>e\<close> raised by the
  runtime, whose wording is the runtime's own and is not spelled out.
\<close>

type_synonym fname = string
type_synonym nonce = nat

datatype errtext = Text string | ExceptionText jsexn

datatype message =
    Publish fname jsval jsval
  | Call nonce fname jsval
  | Result nonce jsval
  | ErrorMsg nonce errtext
  | Expect fname

text \<open>
  What a local implementation \<^verbatim>\<open>fn(...args)\<close> ends with: a value, an exception whose
  \<^verbatim>\<open>toString()\<close> is the given text, or a thrown \<^verbatim>\<open>null\<close> or \<^verbatim>\<open>undefined\<close>, which has
  no \<^verbatim>\<open>toString\<close>.
\<close>

datatype outcome = Returns jsval | Throws string | ThrowsNullish

text \<open>
  \<^verbatim>\<open>LocalFunctionDefinition = { name; args: Sendable[]; returns: Sendable; fn }\<close>, an object
  with these four properties and no others.
\<close>

record lfd =
  lfd_name :: fname
  lfd_args :: "jsval list"
  lfd_returns :: jsval
  lfd_fn :: "jsval list \<Rightarrow> outcome"

text \<open>
  Every call made through the channel hands a promise to its caller. A promise is named by
  a number \<open>pid\<close>, taken from \<open>promises\<close>; \<open>settled\<close> records, in order, each call of a
  \<^verbatim>\<open>resolve\<close> or \<^verbatim>\<open>fail\<close> function (and the end of an async wrapper) with the promise it
  settles.

  \<^verbatim>\<open>InFlightRPC = { name; returns; resolve; fail }\<close>: the two functions settle the promise
  \<open>rpc_pid\<close>.
\<close>

type_synonym pid = nat

datatype settlement = Resolved jsval | Failed errtext | Crashed jsexn

record in_flight_rpc =
  rpc_name :: fname
  rpc_returns :: jsval
  rpc_pid :: pid

text \<open>
  An entry of \<^verbatim>\<open>remoteFunctions\<close> is the closure made on \<^verbatim>\<open>publish\<close>, which captured
  \<open>name\<close> and \<open>returns\<close>, or the function that replaces it on close.
\<close>

datatype handle = Live fname jsval | Inert fname

text \<open>
  An entry of an \<^verbatim>\<open>expected[prop]\<close> array is the \<^verbatim>\<open>resolve\<close> function of the promise a
  wrapper awaits. Its continuation needs the wrapper's arguments and settles the wrapper's
  promise \<open>w_pid\<close>; \<open>w_released\<close> tells whether \<^verbatim>\<open>resolve\<close> has been called (a second call
  does nothing).
\<close>

record waiter =
  w_pid :: pid
  w_args :: "jsval list"
  w_released :: bool

text \<open>A local implementation that has been invoked and is awaited by the call handler.\<close>

record running_call =
  run_nonce :: nonce
  run_outcome :: outcome

text \<open>
  The state of one channel. The first six fields are the variables of \<^verbatim>\<open>createChannel\<close>:
  \<^verbatim>\<open>
  let open = true;
  let counter = 1;
  const remoteFunctions = {};
  const inFlight = {};
  const published = {};
  const expected = {};
  \<close>
  Each table is the list of the object's own properties, a new key going to the end. The
  four tables are plain objects, whose prototype is \<^verbatim>\<open>Object.prototype\<close>; \<open>published_proto\<close>
  is the definition that has taken its place for \<^verbatim>\<open>published\<close>, if any (see
  \<open>publishFunction\<close>).

  The other fields are the surroundings: \<open>wire\<close> the messages given to \<^verbatim>\<open>send\<close>, oldest
  first; \<open>released\<close> the continuations of released waiters that have not run yet, in the
  order of the job queue; \<open>running\<close> the awaited implementations; \<open>invoked\<close> every invocation
  of an implementation; \<open>uncaught\<close> the exceptions that escaped the receive handler.
  Logging has no effect on any of this and is left out.
\<close>

record engine =
  is_open :: bool
  counter :: nat
  remoteFunctions :: "(fname \<times> handle) list"
  inFlight :: "(nonce \<times> in_flight_rpc) list"
  published :: "(fname \<times> lfd) list"
  expected :: "(fname \<times> waiter list) list"
  published_proto :: "lfd option"
  wire :: "message list"
  promises :: nat
  settled :: "(pid \<times> settlement) list"
  released :: "(fname \<times> waiter) list"
  running :: "running_call list"
  invoked :: "(fname \<times> jsval list) list"
  uncaught :: "jsexn list"

definition fresh :: engine where
  "fresh = \<lparr> is_open = True, counter = 1, remoteFunctions = [], inFlight = [],
             published = [], expected = [], published_proto = None, wire = [],
             promises = 0, settled = [], released = [], running = [], invoked = [],
             uncaught = [] \<rparr>"

definition has_key :: "('k \<times> 'v) list \<Rightarrow> 'k \<Rightarrow> bool" where
  "has_key al k = (k \<in> set (map fst al))"

definition send :: "engine \<Rightarrow> message \<Rightarrow> engine" where
  "send s m = s\<lparr> wire := wire s @ [m] \<rparr>"

definition settle :: "engine \<Rightarrow> pid \<Rightarrow> settlement \<Rightarrow> engine" where
  "settle s p r = s\<lparr> settled := settled s @ [(p, r)] \<rparr>"

definition new_promise :: "engine \<Rightarrow> pid \<times> engine" where
  "new_promise s = (promises s, s\<lparr> promises := promises s + 1 \<rparr>)"

subsection \<open>Names\<close>

text \<open>
  A table inherits the members of \<^verbatim>\<open>Object.prototype\<close>, so a function name that is one of
  them is not an ordinary key: \<^verbatim>\<open>k in table\<close> is true for it whether or not \<open>k\<close> is a key,
  \<^verbatim>\<open>table.hasOwnProperty\<close> is whatever is stored under the key \<^verbatim>\<open>hasOwnProperty\<close> once
  there is such a key, and \<^verbatim>\<open>table['__proto__'] = v\<close> replaces the prototype and makes no
  key. These are the property names of \<^verbatim>\<open>Object.prototype\<close>.
\<close>

definition object_prototype_members :: "string list" where
  "object_prototype_members =
     [''constructor'', ''__defineGetter__'', ''__defineSetter__'', ''hasOwnProperty'',
      ''__lookupGetter__'', ''__lookupSetter__'', ''isPrototypeOf'',
      ''propertyIsEnumerable'', ''toString'', ''valueOf'', ''__proto__'',
      ''toLocaleString'']"

text \<open>
  For every other name, and as long as the tables hold such names only, \<^verbatim>\<open>k in table\<close> and
  \<^verbatim>\<open>table.hasOwnProperty(k)\<close> both say whether \<open>k\<close> is a key. The accesses to \<^verbatim>\<open>published\<close>
  in \<open>publishFunction\<close> and in the \<^verbatim>\<open>call\<close> case of the receive handler are modelled for
  all names. The other accesses (the proxy, the \<^verbatim>\<open>publish\<close> and \<^verbatim>\<open>expect\<close> cases) are
  modelled for the names that are no members of \<^verbatim>\<open>Object.prototype\<close>, and the claims
  that rest on them are stated for such names.
\<close>

definition plain_name :: "string \<Rightarrow> bool" where
  "plain_name name = (name \<notin> set object_prototype_members)"

subsection \<open>Publishing\<close>

text \<open>
  \<^verbatim>\<open>
  const sendFunction = (lfd) => {
      const { name, args, returns } = lfd;
      send({ type: 'publish', name: name, args, returns });
  };
  const publishFunction = (lfd) => {
      const { name } = lfd;
      if (published.hasOwnProperty(name)) {
          throw new Error('channel already has a published function called ' + name);
      }
      published[name] = lfd;
      sendFunction(lfd);
  };
  \<close>
  Once a definition is stored under the key \<^verbatim>\<open>hasOwnProperty\<close>, the expression
  \<^verbatim>\<open>published.hasOwnProperty\<close> is that definition, an object, and calling it is a
  \<^verbatim>\<open>TypeError\<close>. The assignment \<^verbatim>\<open>published['__proto__'] = lfd\<close> makes \<open>lfd\<close> the prototype
  of the table; as \<open>lfd\<close> has no property \<^verbatim>\<open>hasOwnProperty\<close>, the method is found behind it
  as before.
\<close>

definition sendFunction :: "engine \<Rightarrow> lfd \<Rightarrow> engine" where
  "sendFunction s d = send s (Publish (lfd_name d) (JArr (lfd_args d)) (lfd_returns d))"

definition publishFunction :: "engine \<Rightarrow> lfd \<Rightarrow> jsexn + engine" where
  "publishFunction s d =
     (if has_key (published s) ''hasOwnProperty'' then Inl TypeError
      else if has_key (published s) (lfd_name d)
      then Inl (Error (''channel already has a published function called '' @ lfd_name d))
      else if lfd_name d = ''__proto__''
      then Inr (sendFunction (s\<lparr> published_proto := Some d \<rparr>) d)
      else Inr (sendFunction (s\<lparr> published := AList.update (lfd_name d) d (published s) \<rparr>) d))"

subsection \<open>Calling\<close>

text \<open>
  \<^verbatim>\<open>counter++\<close> on a JavaScript number that holds an integer \<open>c\<close>: the integers up to
  \<open>2^53\<close> are numbers, and so is \<open>c + 1\<close> for \<open>c\<close> below \<open>2^53\<close>; \<open>2^53 + 1\<close> is none,
  and the sum is rounded to \<open>2^53\<close> again. The counter starts at 1 and never gets beyond
  \<open>2^53\<close>.
\<close>

definition nonce_limit :: nat where
  "nonce_limit = 2 ^ 53"

definition increment :: "nat \<Rightarrow> nat" where
  "increment c = (if c < nonce_limit then c + 1 else c)"

text \<open>
  The closure stored on \<^verbatim>\<open>publish\<close>, called with the promise \<open>p\<close> it settles:
  \<^verbatim>\<open>
  remoteFunctions[name] = async (...callArgs) => {
      const nonce = counter++;
      send({ type: 'call', nonce, name, args: callArgs });
      return await new Promise((resolve, fail) => {
          inFlight[nonce] = { name, returns, resolve, fail };
      });
  };
  \<close>
  and the one stored on close, which returns at once, its promise resolved with
  \<^verbatim>\<open>undefined\<close>:
  \<^verbatim>\<open>
  remoteFunctions[k] = async () => { log('Calling function after connection closed', k); };
  \<close>
\<close>

definition call_live :: "engine \<Rightarrow> fname \<Rightarrow> jsval \<Rightarrow> pid \<Rightarrow> jsval list \<Rightarrow> engine" where
  "call_live s name returns p callArgs =
     (let nonce = counter s;
          s1 = s\<lparr> counter := increment (counter s) \<rparr>;
          s2 = send s1 (Call nonce name (JArr callArgs))
      in s2\<lparr> inFlight := AList.update nonce
                   \<lparr> rpc_name = name, rpc_returns = returns, rpc_pid = p \<rparr> (inFlight s2) \<rparr>)"

fun call_handle :: "engine \<Rightarrow> handle \<Rightarrow> pid \<Rightarrow> jsval list \<Rightarrow> engine" where
  "call_handle s (Live name returns) p callArgs = call_live s name returns p callArgs"
| "call_handle s (Inert k) p callArgs = settle s p (Resolved JUndefined)"

text \<open>
  The proxy:
  \<^verbatim>\<open>
  get(_t, prop, _r) {
      if (prop === 'publish') { return publishFunction; }
      else if (!(prop in remoteFunctions)) {
          return async (...args) => {
              await new Promise(resolve => {
                  if (prop in expected) { expected[prop].push(resolve); }
                  else { expected[prop] = [resolve]; }
              });
              send({ type: 'expect', name: prop });
              return await remoteFunctions[prop](...args);
          };
      }
      else { return remoteFunctions[prop]; }
  }
  \<close>
  \<open>get\<close> is the property access, \<open>invoke\<close> the call of what it returned, up to the first
  \<^verbatim>\<open>await\<close> that suspends. For the wrapper that is the promise whose \<^verbatim>\<open>resolve\<close> it queues;
  \<open>resume_waiter\<close> is the rest of the wrapper, run as a job once \<^verbatim>\<open>resolve\<close> has been
  called. The wrapper's promise follows the promise of the inner call, so both are the one
  \<open>w_pid\<close>.
\<close>

datatype callable = ExpectWrapper fname | RemoteFunction handle

datatype property = PublishFunction | Callable callable

definition get :: "engine \<Rightarrow> string \<Rightarrow> property" where
  "get s prop =
     (if prop = ''publish'' then PublishFunction
      else case map_of (remoteFunctions s) prop of
             None \<Rightarrow> Callable (ExpectWrapper prop)
           | Some h \<Rightarrow> Callable (RemoteFunction h))"

definition enqueue :: "engine \<Rightarrow> fname \<Rightarrow> waiter \<Rightarrow> engine" where
  "enqueue s prop w =
     (case map_of (expected s) prop of
        Some ws \<Rightarrow> s\<lparr> expected := AList.update prop (ws @ [w]) (expected s) \<rparr>
      | None \<Rightarrow> s\<lparr> expected := AList.update prop [w] (expected s) \<rparr>)"

fun invoke :: "engine \<Rightarrow> callable \<Rightarrow> jsval list \<Rightarrow> engine" where
  "invoke s (ExpectWrapper prop) args =
     (let (p, s1) = new_promise s
      in enqueue s1 prop \<lparr> w_pid = p, w_args = args, w_released = False \<rparr>)"
| "invoke s (RemoteFunction h) args =
     (let (p, s1) = new_promise s in call_handle s1 h p args)"

definition resume_waiter :: "engine \<Rightarrow> fname \<Rightarrow> waiter \<Rightarrow> engine" where
  "resume_waiter s prop w =
     (let s1 = send s (Expect prop)
      in case map_of (remoteFunctions s1) prop of
           None \<Rightarrow> settle s1 (w_pid w) (Crashed TypeError)
         | Some h \<Rightarrow> call_handle s1 h (w_pid w) (w_args w))"

definition run_released :: "engine \<Rightarrow> engine" where
  "run_released s =
     (case released s of
        [] \<Rightarrow> s
      | (prop, w) # rest \<Rightarrow> resume_waiter (s\<lparr> released := rest \<rparr>) prop w)"

subsection \<open>The receive handler\<close>

text \<open>
  \<^verbatim>\<open>expected[name].map(resolve => resolve())\<close>: every waiter of the array whose promise is
  still pending gets its continuation queued, in the order of the array. The array stays
  where it is.
\<close>

definition drain :: "engine \<Rightarrow> fname \<Rightarrow> engine" where
  "drain s name =
     (case map_of (expected s) name of
        None \<Rightarrow> s
      | Some ws \<Rightarrow>
          s\<lparr> released := released s @ map (Pair name) (filter (\<lambda>w. \<not> w_released w) ws),
             expected :=
               AList.update name (map (\<lambda>w. w\<lparr> w_released := True \<rparr>) ws) (expected s) \<rparr>)"

definition normalize :: "jsval \<Rightarrow> jsval" where
  "normalize result = (if result = JUndefined then JNull else result)"

text \<open>
  \<^verbatim>\<open>
  registerReceive(async (m) => {
      switch (m.type) {
          case 'call': {
              const { name, nonce, args } = m;
              if (!published.hasOwnProperty(name)) {
                  send({ type: 'error', nonce, message: `Unpublished Function: ${name}` });
              }
              else
                  try {
                      const { fn, args: argstype } = published[name];
                      if (validate(args, argstype)) {
                          let result = await fn(...args);
                          if (result === undefined || typeof result === 'undefined')
                              result = null;
                          if (open)
                              send({ type: 'result', nonce, value: result });
                      }
                      else {
                          send({ type: 'error', nonce, message: 'Invalid Arguments' });
                      }
                  }
                  catch (e) {
                      send({ type: 'error', nonce, message: 'Exception: ' + e.toString() });
                  }
          } break;
          case 'publish': {
              const { name, returns } = m;
              if (remoteFunctions.hasOwnProperty(name)) { }
              else {
                  remoteFunctions[name] = async (...callArgs) => { ... };
                  if (name in expected) {
                      expected[name].map(resolve => resolve());
                  }
              }
          } break;
          case 'expect': {
              const { name } = m;
              if (name in published) { sendFunction(published[name]); }
          } break;
          case 'error': {
              const { nonce, message } = m;
              if (inFlight.hasOwnProperty(nonce)) {
                  inFlight[nonce].fail(message);
                  delete inFlight[nonce];
              }
          } break;
          case 'result': {
              const { nonce, value } = m;
              if (inFlight.hasOwnProperty(nonce)) {
                  const rpc = inFlight[nonce];
                  if (!validate(value, rpc.returns))
                      rpc.fail(`invalid return value from rpc ${rpc.name}`);
                  else
                      rpc.resolve(value);
                  delete inFlight[nonce];
              }
          } break;
      }
  });
  \<close>
  \<open>receive\<close> is the handler up to its only suspension, \<^verbatim>\<open>await fn(...args)\<close>: the
  implementation is invoked (\<open>invoked\<close>) and awaited (\<open>running\<close>); \<open>finish\<close> is the rest of
  the \<^verbatim>\<open>call\<close> case, run when the awaited implementation has ended. When it has thrown
  \<^verbatim>\<open>null\<close> or \<^verbatim>\<open>undefined\<close>, \<^verbatim>\<open>e.toString()\<close> raises a \<^verbatim>\<open>TypeError\<close> inside the
  \<^verbatim>\<open>catch\<close> block, which leaves the handler.

  In the \<^verbatim>\<open>call\<close> case the test \<^verbatim>\<open>published.hasOwnProperty(name)\<close> stands before the
  \<^verbatim>\<open>try\<close>: the \<^verbatim>\<open>TypeError\<close> it raises once \<^verbatim>\<open>hasOwnProperty\<close> is a key of \<^verbatim>\<open>published\<close>
  leaves the handler, and no reply is sent. An exception of \<^verbatim>\<open>validate\<close> is caught there
  and reported. In the \<^verbatim>\<open>result\<close> case an exception of \<^verbatim>\<open>validate\<close> is outside any
  \<^verbatim>\<open>try\<close>: it leaves the handler before anything is settled or deleted. The keys of
  \<^verbatim>\<open>inFlight\<close> are numbers, which are no members of \<^verbatim>\<open>Object.prototype\<close>.
\<close>

fun receive :: "engine \<Rightarrow> message \<Rightarrow> engine" where
  "receive s (Call nonce name args) =
     (if has_key (published s) ''hasOwnProperty'' then s\<lparr> uncaught := uncaught s @ [TypeError] \<rparr>
      else case map_of (published s) name of
        None \<Rightarrow> send s (ErrorMsg nonce (Text (''Unpublished Function: '' @ name)))
      | Some d \<Rightarrow>
          (case validate args (JArr (lfd_args d)) of
             Inl e \<Rightarrow> send s (ErrorMsg nonce (ExceptionText e))
           | Inr False \<Rightarrow> send s (ErrorMsg nonce (Text ''Invalid Arguments''))
           | Inr True \<Rightarrow>
               (case args of
                  JArr as \<Rightarrow>
                    s\<lparr> invoked := invoked s @ [(name, as)],
                       running := running s @
                         [\<lparr> run_nonce = nonce, run_outcome = lfd_fn d as \<rparr>] \<rparr>
                | _ \<Rightarrow> send s (ErrorMsg nonce (ExceptionText TypeError)))))"
| "receive s (Publish name args returns) =
     (if has_key (remoteFunctions s) name then s
      else drain (s\<lparr> remoteFunctions :=
                       AList.update name (Live name returns) (remoteFunctions s) \<rparr>) name)"
| "receive s (Expect name) =
     (case map_of (published s) name of
        Some d \<Rightarrow> sendFunction s d
      | None \<Rightarrow> s)"
| "receive s (ErrorMsg nonce msg) =
     (case map_of (inFlight s) nonce of
        Some rpc \<Rightarrow>
          (settle s (rpc_pid rpc) (Failed msg))\<lparr> inFlight := AList.delete nonce (inFlight s) \<rparr>
      | None \<Rightarrow> s)"
| "receive s (Result nonce v) =
     (case map_of (inFlight s) nonce of
        Some rpc \<Rightarrow>
          (case validate v (rpc_returns rpc) of
             Inl e \<Rightarrow> s\<lparr> uncaught := uncaught s @ [e] \<rparr>
           | Inr False \<Rightarrow>
               (settle s (rpc_pid rpc)
                  (Failed (Text (''invalid return value from rpc '' @ rpc_name rpc))))
                 \<lparr> inFlight := AList.delete nonce (inFlight s) \<rparr>
           | Inr True \<Rightarrow>
               (settle s (rpc_pid rpc) (Resolved v))
                 \<lparr> inFlight := AList.delete nonce (inFlight s) \<rparr>)
      | None \<Rightarrow> s)"

definition finish :: "engine \<Rightarrow> nat \<Rightarrow> engine" where
  "finish s i =
     (if i < length (running s) then
        (let r = running s ! i;
             s1 = s\<lparr> running := take i (running s) @ drop (Suc i) (running s) \<rparr>
         in case run_outcome r of
              Returns v \<Rightarrow>
                (if is_open s1 then send s1 (Result (run_nonce r) (normalize v)) else s1)
            | Throws txt \<Rightarrow> send s1 (ErrorMsg (run_nonce r) (Text (''Exception: '' @ txt)))
            | ThrowsNullish \<Rightarrow> s1\<lparr> uncaught := uncaught s1 @ [TypeError] \<rparr>)
      else s)"

subsection \<open>Closing\<close>

text \<open>
  \<^verbatim>\<open>
  registerClose(() => {
      open = false;
      for (const k of Object.keys(inFlight)) {
          inFlight[k].fail('Connection Closed');
          delete inFlight[k];
      }
      for (const k of Object.keys(remoteFunctions)) {
          remoteFunctions[k] = async () => { ... };
      }
  });
  \<close>
  \<^verbatim>\<open>Object.keys\<close> lists the keys that are array indices, which are the integers below
  \<open>2^32 - 1\<close>, in ascending order, and after them the other keys in the order in which
  they were created.
\<close>

definition own_keys_order :: "(nat \<times> 'a) list \<Rightarrow> (nat \<times> 'a) list" where
  "own_keys_order al =
     sort_key fst (filter (\<lambda>e. fst e < 2 ^ 32 - 1) al) @
     filter (\<lambda>e. \<not> fst e < 2 ^ 32 - 1) al"

definition close :: "engine \<Rightarrow> engine" where
  "close s =
     s\<lparr> is_open := False,
        settled := settled s @
          map (\<lambda>(k, rpc). (rpc_pid rpc, Failed (Text ''Connection Closed'')))
            (own_keys_order (inFlight s)),
        inFlight := [],
        remoteFunctions := map (\<lambda>(k, h). (k, Inert k)) (remoteFunctions s) \<rparr>"

subsection \<open>Creation and executions\<close>

text \<open>
  \<^verbatim>\<open>if (publish) for (const rfd of publish) publishFunction(rfd);\<close>
\<close>

fun publish_all :: "engine \<Rightarrow> lfd list \<Rightarrow> jsexn + engine" where
  "publish_all s [] = Inr s"
| "publish_all s (d # ds) =
     (case publishFunction s d of Inl e \<Rightarrow> Inl e | Inr s1 \<Rightarrow> publish_all s1 ds)"

definition createChannel :: "lfd list \<Rightarrow> jsexn + engine" where
  "createChannel publish = publish_all fresh publish"

text \<open>
  What can happen to a channel: the user publishes, calls \<^verbatim>\<open>channel.prop(...args)\<close> or
  calls something the proxy returned earlier; the transport delivers a message or closes;
  the job queue runs the continuation of the first released waiter; the \<open>i\<close>-th awaited
  implementation ends. A failed \<^verbatim>\<open>publish\<close> throws to its caller and leaves the channel as
  it was. \<^verbatim>\<open>channel.publish\<close> is \<^verbatim>\<open>publishFunction\<close>, whose call is \<open>UserPublish\<close>.
\<close>

datatype event =
    UserPublish lfd
  | UserCall string "jsval list"
  | UserInvoke callable "jsval list"
  | Receive message
  | Close
  | RunReleased
  | Finish nat

fun step :: "engine \<Rightarrow> event \<Rightarrow> engine" where
  "step s (UserPublish d) = (case publishFunction s d of Inl e \<Rightarrow> s | Inr s1 \<Rightarrow> s1)"
| "step s (UserCall prop args) =
     (case get s prop of PublishFunction \<Rightarrow> s | Callable c \<Rightarrow> invoke s c args)"
| "step s (UserInvoke c args) = invoke s c args"
| "step s (Receive m) = receive s m"
| "step s Close = close s"
| "step s RunReleased = run_released s"
| "step s (Finish i) = finish s i"

definition run :: "engine \<Rightarrow> event list \<Rightarrow> engine" where
  "run s es = foldl step s es"

text \<open>
  The events and the channels that keep to function names which are no members of
  \<^verbatim>\<open>Object.prototype\<close>. A call of \<^verbatim>\<open>channel.publish\<close> is the event \<open>UserPublish\<close>, so it
  is no \<open>UserCall\<close>.
\<close>

fun plain_callable :: "callable \<Rightarrow> bool" where
  "plain_callable (ExpectWrapper prop) = plain_name prop"
| "plain_callable (RemoteFunction (Live name returns)) = plain_name name"
| "plain_callable (RemoteFunction (Inert k)) = plain_name k"

fun plain_message :: "message \<Rightarrow> bool" where
  "plain_message (Publish name args returns) = plain_name name"
| "plain_message (Call nonce name args) = plain_name name"
| "plain_message (Expect name) = plain_name name"
| "plain_message (Result nonce v) = True"
| "plain_message (ErrorMsg nonce msg) = True"

fun plain_event :: "event \<Rightarrow> bool" where
  "plain_event (UserPublish d) = plain_name (lfd_name d)"
| "plain_event (UserCall prop args) = (plain_name prop \<and> prop \<noteq> ''publish'')"
| "plain_event (UserInvoke c args) = plain_callable c"
| "plain_event (Receive m) = plain_message m"
| "plain_event Close = True"
| "plain_event RunReleased = True"
| "plain_event (Finish i) = True"

definition plain_tables :: "engine \<Rightarrow> bool" where
  "plain_tables s =
     (list_all plain_name (map fst (remoteFunctions s)) \<and>
      list_all plain_name (map fst (published s)) \<and>
      list_all plain_name (map fst (expected s)) \<and>
      list_all plain_name (map fst (released s)) \<and>
      published_proto s = None)"

text \<open>The nonces of the \<^verbatim>\<open>call\<close> messages of a wire, oldest first.\<close>

fun call_nonces :: "message list \<Rightarrow> nonce list" where
  "call_nonces [] = []"
| "call_nonces (Call n name args # ms) = n # call_nonces ms"
| "call_nonces (m # ms) = call_nonces ms"

text \<open>A \<^verbatim>\<open>result\<close> or \<^verbatim>\<open>error\<close> message, and one for the nonce \<open>n\<close>.\<close>

fun is_completion :: "message \<Rightarrow> bool" where
  "is_completion (Result n v) = True"
| "is_completion (ErrorMsg n msg) = True"
| "is_completion _ = False"

fun completes :: "nonce \<Rightarrow> event \<Rightarrow> bool" where
  "completes n (Receive (Result m v)) = (m = n)"
| "completes n (Receive (ErrorMsg m msg)) = (m = n)"
| "completes n Close = True"
| "completes n _ = False"

text \<open>
  After the close nothing is in flight and every remote function handle is inert. That
  remains so until something brings a live handle back: a \<^verbatim>\<open>publish\<close> message that is
  still delivered (the receive handler does not look at \<^verbatim>\<open>open\<close>), or the call of a live
  handle that the user took from the proxy before the close.
\<close>

fun is_inert :: "handle \<Rightarrow> bool" where
  "is_inert (Inert k) = True"
| "is_inert (Live name returns) = False"

definition quiet :: "engine \<Rightarrow> bool" where
  "quiet s = (inFlight s = [] \<and> list_all is_inert (map snd (remoteFunctions s)))"

fun revives :: "event \<Rightarrow> bool" where
  "revives (Receive (Publish name args returns)) = True"
| "revives (UserInvoke (RemoteFunction (Live name returns)) args) = True"
| "revives _ = False"

text \<open>
  Every nonce in the in-flight table and on the wire came from the counter. The counter is
  at least 1, and as long as it is below \<open>2^53\<close> the \<^verbatim>\<open>call\<close> messages sent so far carry
  1, 2, ... up to the counter (excluded), in this order, and the keys of the in-flight
  table lie below the counter.
\<close>

definition nonce_inv :: "engine \<Rightarrow> bool" where
  "nonce_inv s =
     (1 \<le> counter s \<and>
      (counter s < nonce_limit \<longrightarrow>
         call_nonces (wire s) = [1..<counter s] \<and>
         list_all (\<lambda>n. n < counter s) (map fst (inFlight s))))"

text \<open>
  The promises that are still to be settled by the engine: those of the in-flight records,
  those of the released waiters whose continuation has not run, and those of the waiters
  still waiting in the expectation table.
\<close>

definition unreleased_pids :: "fname \<times> waiter list \<Rightarrow> pid list" where
  "unreleased_pids e = map w_pid (filter (\<lambda>w. \<not> w_released w) (snd e))"

definition waiting_pids :: "engine \<Rightarrow> pid list" where
  "waiting_pids s =
     map (\<lambda>e. rpc_pid (snd e)) (inFlight s) @
     map (\<lambda>e. w_pid (snd e)) (released s) @
     concat (map unreleased_pids (expected s))"

text \<open>
  Definitions, messages and channels for the examples. \<^verbatim>\<open>noargs\<close> is the definition of the
  tests of the repository,
  \<^verbatim>\<open>{ name: 'noargs', args: [], returns: H.none, fn: async () => {} }\<close>;
  \<open>point\<close>, \<open>hasOwnPropertyDefinition\<close> and \<open>protoDefinition\<close> have the same implementation
  and the names \<^verbatim>\<open>point\<close>, \<^verbatim>\<open>hasOwnProperty\<close> and \<^verbatim>\<open>__proto__\<close>, \<open>point\<close> taking one argument
  of the type \<^verbatim>\<open>{a: H.number}\<close>. \<open>publish_add\<close> is the \<^verbatim>\<open>publish\<close> message for the \<^verbatim>\<open>add\<close>
  of the tests, and \<open>publish_origin\<close> one for a function without arguments that returns a
  \<^verbatim>\<open>{a: H.number}\<close>. The channels have one, two and four calls of \<^verbatim>\<open>add\<close> pending, and
  one call of \<^verbatim>\<open>origin\<close>.
\<close>

definition noargs :: lfd where
  "noargs = \<lparr> lfd_name = ''noargs'', lfd_args = [], lfd_returns = H_none,
              lfd_fn = (\<lambda>as. Returns JUndefined) \<rparr>"

definition point :: lfd where
  "point = \<lparr> lfd_name = ''point'', lfd_args = [JObj [(''a'', H_number)]],
             lfd_returns = H_none, lfd_fn = (\<lambda>as. Returns JUndefined) \<rparr>"

definition hasOwnPropertyDefinition :: lfd where
  "hasOwnPropertyDefinition =
     \<lparr> lfd_name = ''hasOwnProperty'', lfd_args = [], lfd_returns = H_none,
       lfd_fn = (\<lambda>as. Returns JUndefined) \<rparr>"


definition publish_add :: message where
  "publish_add = Publish ''add'' (JArr [H_number, H_number]) H_number"

definition publish_origin :: message where
  "publish_origin = Publish ''origin'' (JArr []) (JObj [(''a'', H_number)])"

definition one_pending :: engine where
  "one_pending = run fresh [Receive publish_add, UserCall ''add'' [JNum 1, JNum 2]]"

definition two_pending :: engine where
  "two_pending = run one_pending [UserCall ''add'' [JNum 3, JNum 4]]"

definition four_pending :: engine where
  "four_pending =
     run two_pending [UserCall ''add'' [JNum 5, JNum 6], UserCall ''add'' [JNum 7, JNum 8]]"

definition origin_pending :: engine where
  "origin_pending = run fresh [Receive publish_origin, UserCall ''origin'' []]"

section \<open>Properties of the validator\<close>

lemma validate_string_against_number: "validate (JStr k) (JNum 2) = Inr False"
  by (simp add: validate.simps)

text \<open>
  The examples of the specification, as a check of the model: the \<^verbatim>\<open>null\<close> marker against
  \<^verbatim>\<open>H.none\<close>, a string and a number against \<^verbatim>\<open>H.string\<close>, arrays of three and of two
  numbers against \<^verbatim>\<open>[H.number, H.number]\<close>, objects with a missing and with an extra key
  against \<^verbatim>\<open>{a: H.number, b: H.number}\<close>, and \<^verbatim>\<open>true\<close> against
  \<^verbatim>\<open>H.union(H.boolean, H.array(H.number))\<close>.
\<close>

lemma validate_examples:
  "validate JNull H_none = Inr True"
  "validate (JStr ''x'') H_string = Inr True"
  "validate (JNum 1) H_string = Inr False"
  "validate (JArr [JNum 1, JNum 2, JNum 3]) (JArr [H_number, H_number]) = Inr False"
  "validate (JArr [JNum 1, JNum 2]) (JArr [H_number, H_number]) = Inr True"
  "validate (JObj [(''a'', JNum 1)]) (JObj [(''a'', H_number), (''b'', H_number)]) = Inr False"
  "validate (JObj [(''a'', JNum 1), (''b'', JNum 2), (''c'', JNum 3)])
     (JObj [(''a'', H_number), (''b'', H_number)]) = Inr False"
  "validate (JBool True) (H_union [H_boolean, H_array H_number]) = Inr True"
  by (simp_all add: validate.simps H_none_def H_string_def H_number_def H_boolean_def
      H_array_def H_union_def and_e_def lookup_or_undefined_def)

text \<open>
  Claim C3. \<^verbatim>\<open>validate\<close> is meant to return a boolean for every value and descriptor and
  never to throw. The code does throw. The fixed structure object branch calls
  \<^verbatim>\<open>value.hasOwnProperty(k)\<close> without looking at the kind of \<open>value\<close>, so the value
  \<^verbatim>\<open>null\<close> against the descriptor \<^verbatim>\<open>{a: H.number}\<close> ends in a \<^verbatim>\<open>TypeError\<close>. Among the
  malformed descriptors, \<^verbatim>\<open>null\<close> passes \<open>isObject\<close> and throws for every value, and so
  does a union without its list of alternatives, \<^verbatim>\<open>{$c: 6}\<close>.
\<close>

theorem validate_throws_TypeError:
  "validate JNull (JObj [(''a'', H_number)]) = Inl TypeError \<and>
   validate v JNull = Inl TypeError \<and>
   validate v (JObj [(''$c'', JNum 6)]) = Inl TypeError"
  by (simp add: validate.simps H_number_def lookup_or_undefined_def)

text \<open>
  Claim C8. Against a fixed structure object descriptor only an associative structure with
  exactly the descriptor's keys should validate. The code accepts values that are no
  objects at all: the number \<^verbatim>\<open>5\<close> against the descriptor \<^verbatim>\<open>{}\<close>, and the array \<^verbatim>\<open>[7]\<close>
  against \<^verbatim>\<open>{"0": H.number}\<close>.
\<close>

theorem validate_fixed_object_accepts_non_objects:
  "validate (JNum 5) (JObj []) = Inr True \<and>
   validate (JArr [JNum 7]) (JObj [(''0'', H_number)]) = Inr True"
  by (simp add: validate.simps H_number_def index_keys_def index_key.simps digit_char_def
      lookup_or_undefined_def)

text \<open>
  On a value that is an object the branch does what is meant, short of the member name
  \<^verbatim>\<open>hasOwnProperty\<close> used as a key: the value validates exactly when its keys are the keys
  of the descriptor and every field validates against the descriptor of its key.
\<close>

lemma every_e_True_iff:
  "(every_e f xs = Inr True) = (\<forall>x \<in> set xs. f x = Inr True)"
  by (induction xs) (auto split: sum.splits)

lemma every_e_pure: "every_e (\<lambda>x. Inr (P x)) xs = Inr (\<forall>x \<in> set xs. P x)"
  by (induction xs) auto

lemma validate_fixed_object_on_objects:
  assumes "''$c'' \<notin> fst ` set fs" and "''hasOwnProperty'' \<notin> fst ` set fs"
    and "''hasOwnProperty'' \<notin> fst ` set vs"
  shows "(validate (JObj vs) (JObj fs) = Inr True) =
    (fst ` set vs = fst ` set fs \<and>
     (\<forall>k \<in> fst ` set vs.
        validate (lookup_or_undefined vs k) (lookup_or_undefined fs k) = Inr True))"
proof -
  have hv: "hasOwnProperty (JObj vs) = (\<lambda>k. Inr (k \<in> fst ` set vs))"
    using assms(3) by (intro ext) simp
  have hf: "hasOwnProperty (JObj fs) = (\<lambda>k. Inr (k \<in> fst ` set fs))"
    using assms(2) by (intro ext) simp
  have ev: "every_e (hasOwnProperty (JObj vs)) (map fst fs) = Inr (fst ` set fs \<subseteq> fst ` set vs)"
    unfolding hv every_e_pure by auto
  have ef: "every_e (hasOwnProperty (JObj fs)) (map fst vs) = Inr (fst ` set vs \<subseteq> fst ` set fs)"
    unfolding hf every_e_pure by auto
  have c: "hasOwnProperty (JObj fs) ''$c'' = Inr False"
    using assms(1) by (simp add: hf)
  have "validate (JObj vs) (JObj fs) =
      (if fst ` set fs \<subseteq> fst ` set vs \<and> fst ` set vs \<subseteq> fst ` set fs
       then every_e (\<lambda>k. validate (lookup_or_undefined vs k) (lookup_or_undefined fs k))
              (map fst vs)
       else Inr False)"
    by (subst validate.simps)
       (auto simp: c ev ef simp del: hasOwnProperty.simps split: bool.splits)
  then show ?thesis
    by (auto simp: every_e_True_iff)
qed

text \<open>
  Claim C10. A variable structure object descriptor with the key type \<^verbatim>\<open>H.number\<close> is an
  object \<open>d\<close> with \<^verbatim>\<open>$c: 5\<close> and \<^verbatim>\<open>$k: 2\<close>, such as \<^verbatim>\<open>H.object(H.number, v)\<close>. Against it every
  object with at least one key fails, whatever the value type is: the keys that
  \<^verbatim>\<open>Object.keys\<close> hands to the check are strings, and a string is no number. The only value
  such a descriptor accepts is the empty object.
\<close>

theorem number_keyed_object_accepts_only_empty:
  assumes "''hasOwnProperty'' \<notin> fst ` set d"
    and "map_of d ''$c'' = Some (JNum 5)" and "map_of d ''$k'' = Some (JNum 2)"
  shows "validate (JObj (kv # kvs)) (JObj d) = Inr False \<and>
    (validate V (JObj d) = Inr True) = (V = JObj [])"
proof
  have c: "''$c'' \<in> fst ` set d"
    using assms(2) by (metis domI dom_map_of_conv_image_fst)
  show "validate (JObj (kv # kvs)) (JObj d) = Inr False"
    using assms c
    by (subst validate.simps)
       (simp add: lookup_or_undefined_def validate_string_against_number)
  show "(validate V (JObj d) = Inr True) = (V = JObj [])"
  proof (cases V)
    case (JObj xs)
    then show ?thesis
      using assms c
      by (cases xs; subst validate.simps)
         (simp_all add: lookup_or_undefined_def validate_string_against_number)
  qed (use assms c in \<open>subst validate.simps; simp add: lookup_or_undefined_def\<close>)+
qed

theorem number_keyed_object_witness:
  "validate (JObj [(''a'', JNum 1)]) (H_object H_number H_number) = Inr False \<and>
   validate (JObj []) (H_object H_number H_number) = Inr True"
  using number_keyed_object_accepts_only_empty
    [of "[(''$c'', JNum 5), (''$k'', JNum 2), (''$v'', JNum 2)]" "(''a'', JNum 1)" "[]" "JObj []"]
  by (simp add: H_object_def H_number_def)

section \<open>Properties of the engine\<close>

subsection \<open>Tables\<close>

lemma update_absent_appends:
  "k \<notin> set (map fst al) \<Longrightarrow> AList.update k v al = al @ [(k, v)]"
  by (induction al) auto

lemma keys_update: "fst ` set (AList.update k v al) = insert k (fst ` set al)"
  by (induction al) auto

lemma keys_delete: "fst ` set (AList.delete k al) = fst ` set al - {k}"
  by (induction al) auto

lemma call_nonces_append [simp]:
  "call_nonces (xs @ ys) = call_nonces xs @ call_nonces ys"
  by (induction xs rule: call_nonces.induct) simp_all

lemma nonce_limit_gt_1: "1 < nonce_limit"
  by (simp add: nonce_limit_def)

lemma increment_below: "c < nonce_limit \<Longrightarrow> increment c = c + 1"
  by (simp add: increment_def)

lemma increment_ge: "c \<le> increment c"
  by (simp add: increment_def)

text \<open>The unfolding that evaluates a scenario.\<close>

lemmas scenario =
  run_def fresh_def get_def new_promise_def enqueue_def has_key_def drain_def
  run_released_def resume_waiter_def send_def sendFunction_def settle_def call_live_def
  publishFunction_def close_def own_keys_order_def increment_def nonce_limit_def Let_def
  H_number_def H_none_def

subsection \<open>Names\<close>

text \<open>
  A channel that is created with definitions whose names are no members of
  \<^verbatim>\<open>Object.prototype\<close>, and that meets such names only, has such names only in its tables,
  and the prototype of \<^verbatim>\<open>published\<close> is never replaced.
\<close>

lemma plain_keys_update:
  "plain_name k \<Longrightarrow> list_all plain_name (map fst al) \<Longrightarrow>
   list_all plain_name (map fst (AList.update k v al))"
  by (induction al) auto

lemma plain_tables_fresh: "plain_tables fresh"
  by (simp add: plain_tables_def fresh_def)

lemma plain_tables_publishFunction:
  "plain_tables s \<Longrightarrow> plain_name (lfd_name d) \<Longrightarrow> publishFunction s d = Inr s1 \<Longrightarrow>
   plain_tables s1"
  by (auto simp: plain_tables_def publishFunction_def sendFunction_def send_def
        plain_keys_update plain_name_def object_prototype_members_def split: if_splits)

lemma plain_tables_publish_all:
  "plain_tables s \<Longrightarrow> list_all (\<lambda>d. plain_name (lfd_name d)) ds \<Longrightarrow>
   publish_all s ds = Inr s1 \<Longrightarrow> plain_tables s1"
  by (induction ds arbitrary: s) (auto split: sum.splits dest: plain_tables_publishFunction)

lemma plain_tables_call_handle:
  "plain_tables s \<Longrightarrow> plain_tables (call_handle s h p cargs)"
  by (cases h) (simp_all add: plain_tables_def call_live_def send_def settle_def Let_def)

lemma plain_tables_enqueue:
  "plain_tables s \<Longrightarrow> plain_name nm \<Longrightarrow> plain_tables (enqueue s nm w)"
  by (simp add: plain_tables_def enqueue_def plain_keys_update split: option.splits)

lemma plain_tables_promises [simp]: "plain_tables (s\<lparr>promises := x\<rparr>) = plain_tables s"
  by (simp add: plain_tables_def)

lemma plain_tables_invoke:
  "plain_tables s \<Longrightarrow> plain_callable c \<Longrightarrow> plain_tables (invoke s c cargs)"
  by (cases c) (simp_all add: new_promise_def plain_tables_enqueue plain_tables_call_handle)

lemma plain_keys_pair:
  "plain_name nm \<Longrightarrow> list_all plain_name (map (fst \<circ> Pair nm) ws)"
  by (simp add: list_all_iff)

lemma plain_tables_drain:
  "plain_tables s \<Longrightarrow> plain_name nm \<Longrightarrow> plain_tables (drain s nm)"
  by (simp add: plain_tables_def drain_def plain_keys_update plain_keys_pair
        split: option.splits)

lemma plain_tables_receive:
  "plain_tables s \<Longrightarrow> plain_message m \<Longrightarrow> plain_tables (receive s m)"
proof (cases m)
  case (Publish name args returns)
  assume a: "plain_tables s" "plain_message m"
  then have "plain_tables
      (s\<lparr>remoteFunctions := AList.update name (Live name returns) (remoteFunctions s)\<rparr>)"
    using Publish by (simp add: plain_tables_def plain_keys_update)
  then show ?thesis
    using a Publish by (simp add: plain_tables_drain)
next
  case (Call n name args)
  assume "plain_tables s"
  then show ?thesis using Call
    by (auto simp: plain_tables_def send_def split: option.splits sum.splits bool.splits
          jsval.splits)
next
  case (Result n v)
  assume "plain_tables s"
  then show ?thesis using Result
    by (auto simp: plain_tables_def settle_def split: option.splits sum.splits bool.splits)
next
  case (ErrorMsg n msg)
  assume "plain_tables s"
  then show ?thesis using ErrorMsg
    by (auto simp: plain_tables_def settle_def split: option.splits)
next
  case (Expect name)
  assume "plain_tables s"
  then show ?thesis using Expect
    by (auto simp: plain_tables_def sendFunction_def send_def split: option.splits)
qed

lemma plain_tables_run_released: "plain_tables s \<Longrightarrow> plain_tables (run_released s)"
proof (cases "released s")
  case Nil
  assume "plain_tables s"
  then show ?thesis using Nil by (simp add: run_released_def)
next
  case (Cons a rest)
  assume p: "plain_tables s"
  obtain nm w where pw: "a = (nm, w)" by (cases a)
  let ?s1 = "send (s\<lparr>released := rest\<rparr>) (Expect nm)"
  have "plain_tables ?s1"
    using p Cons by (simp add: plain_tables_def send_def)
  then have "plain_tables (resume_waiter (s\<lparr>released := rest\<rparr>) nm w)"
    by (auto simp: resume_waiter_def Let_def plain_tables_call_handle split: option.splits)
       (simp add: plain_tables_def settle_def)
  then show ?thesis using Cons pw by (simp add: run_released_def)
qed

lemma plain_tables_step:
  "plain_tables s \<Longrightarrow> plain_event e \<Longrightarrow> plain_tables (step s e)"
proof (cases e)
  case (UserPublish d)
  assume "plain_tables s" "plain_event e"
  then show ?thesis using UserPublish
    by (auto split: sum.splits dest: plain_tables_publishFunction)
next
  case (UserCall nm cargs)
  assume a: "plain_tables s" "plain_event e"
  show ?thesis
  proof (cases "map_of (remoteFunctions s) nm")
    case None
    then show ?thesis using a UserCall
      by (simp add: get_def new_promise_def plain_tables_enqueue)
  next
    case (Some h)
    then show ?thesis using a UserCall
      by (simp add: get_def new_promise_def plain_tables_call_handle)
  qed
next
  case (UserInvoke c cargs)
  assume "plain_tables s" "plain_event e"
  then show ?thesis using UserInvoke by (simp add: plain_tables_invoke)
next
  case (Receive m)
  assume "plain_tables s" "plain_event e"
  then show ?thesis using Receive by (simp add: plain_tables_receive)
next
  case Close
  assume "plain_tables s"
  then show ?thesis using Close
    by (simp add: plain_tables_def close_def comp_def split_def)
next
  case RunReleased
  assume "plain_tables s"
  then show ?thesis using RunReleased by (simp add: plain_tables_run_released)
next
  case (Finish i)
  assume "plain_tables s"
  then show ?thesis using Finish
    by (simp add: plain_tables_def finish_def Let_def send_def split: outcome.splits)
qed

lemma plain_tables_run:
  "plain_tables s \<Longrightarrow> list_all plain_event es \<Longrightarrow> plain_tables (run s es)"
  unfolding run_def by (induction es arbitrary: s) (simp_all add: plain_tables_step)

lemma plain_tables_createChannel:
  "list_all (\<lambda>d. plain_name (lfd_name d)) pubs \<Longrightarrow> createChannel pubs = Inr s0 \<Longrightarrow>
   plain_tables s0"
  using plain_tables_publish_all [OF plain_tables_fresh] by (simp add: createChannel_def)

lemma plain_tables_no_shadow:
  "plain_tables s \<Longrightarrow> \<not> has_key (published s) ''hasOwnProperty''"
  by (auto simp: plain_tables_def has_key_def list_all_iff plain_name_def
        object_prototype_members_def)

subsection \<open>Publishing\<close>




subsection \<open>Serving a call\<close>

text \<open>
  As long as no definition is stored under the key \<^verbatim>\<open>hasOwnProperty\<close>: a \<^verbatim>\<open>call\<close> message
  for a published function whose arguments \<^verbatim>\<open>validate\<close> rejects by returning false is
  answered by \<^verbatim>\<open>error{nonce, "Invalid Arguments"}\<close>, and one for a name that is not
  published by \<^verbatim>\<open>error{nonce, "Unpublished Function: <name>"}\<close>. In both cases nothing
  else changes: no implementation is invoked and none is awaited. Where \<^verbatim>\<open>validate\<close>
  throws, the exception is reported to the caller as if the implementation had raised it.
  In every state and for every message, an implementation is invoked only when
  \<^verbatim>\<open>validate\<close> has returned true.
\<close>

lemma rejected_call_never_invokes:
  assumes "\<not> has_key (published s) ''hasOwnProperty''"
  shows "(map_of (published s) name = Some d \<and> validate args (JArr (lfd_args d)) = Inr False \<longrightarrow>
      receive s (Call nonce name args) =
        s\<lparr> wire := wire s @ [ErrorMsg nonce (Text ''Invalid Arguments'')] \<rparr> \<and>
      invoked (receive s (Call nonce name args)) = invoked s \<and>
      running (receive s (Call nonce name args)) = running s) \<and>
   (\<not> has_key (published s) name \<longrightarrow>
      receive s (Call nonce name args) =
        s\<lparr> wire := wire s @ [ErrorMsg nonce (Text (''Unpublished Function: '' @ name))] \<rparr> \<and>
      invoked (receive s (Call nonce name args)) = invoked s \<and>
      running (receive s (Call nonce name args)) = running s) \<and>
   (map_of (published s) name = Some d \<and> validate args (JArr (lfd_args d)) = Inl e \<longrightarrow>
      receive s (Call nonce name args) =
        s\<lparr> wire := wire s @ [ErrorMsg nonce (ExceptionText e)] \<rparr> \<and>
      invoked (receive s (Call nonce name args)) = invoked s \<and>
      running (receive s (Call nonce name args)) = running s)"
  using assms
  by (auto simp: send_def has_key_def map_of_eq_None_iff [symmetric]
        split: sum.splits bool.splits)

lemma invoked_only_when_valid:
  "(\<forall>d. map_of (published s) name = Some d \<longrightarrow> validate args (JArr (lfd_args d)) \<noteq> Inr True) \<Longrightarrow>
   invoked (receive s (Call nonce name args)) = invoked s \<and>
   running (receive s (Call nonce name args)) = running s"
  by (auto simp: send_def split: option.splits sum.splits bool.splits)

lemma call_noargs_with_an_argument:
  "receive (step fresh (UserPublish noargs)) (Call 1 ''noargs'' (JArr [JStr '''']))
     = (step fresh (UserPublish noargs))
         \<lparr> wire := [Publish ''noargs'' (JArr []) H_none,
                    ErrorMsg 1 (Text ''Invalid Arguments'')] \<rparr> \<and>
   receive fresh (Call 1 ''noargs'' (JArr [])) =
     fresh\<lparr> wire := [ErrorMsg 1 (Text ''Unpublished Function: noargs'')] \<rparr>"
  by (simp add: scenario noargs_def validate.simps and_e_def)

text \<open>
  Once a definition named \<^verbatim>\<open>hasOwnProperty\<close> is published, the test for the name throws
  before the \<^verbatim>\<open>try\<close>: the call of the unpublished \<^verbatim>\<open>missing\<close> gets no reply at all.
\<close>

lemma call_after_publishing_hasOwnProperty:
  "receive (run fresh [UserPublish hasOwnPropertyDefinition]) (Call 7 ''missing'' (JArr [])) =
     (run fresh [UserPublish hasOwnPropertyDefinition])\<lparr> uncaught := [TypeError] \<rparr> \<and>
   wire (receive (run fresh [UserPublish hasOwnPropertyDefinition])
           (Call 7 ''missing'' (JArr []))) =
     [Publish ''hasOwnProperty'' (JArr []) H_none]"
  by (simp add: scenario hasOwnPropertyDefinition_def)

text \<open>
  Claim C5. A \<^verbatim>\<open>call\<close> message for a published function whose arguments fail validation
  is meant to be answered by \<^verbatim>\<open>error{nonce, "Invalid Arguments"}\<close>. The code does not
  where \<^verbatim>\<open>validate\<close> throws instead of returning false. The function \<^verbatim>\<open>point\<close> takes one
  argument of the type \<^verbatim>\<open>{a: H.number}\<close>; called with the argument \<^verbatim>\<open>null\<close>, the reply is
  the \<^verbatim>\<open>error\<close> message with the text of the \<^verbatim>\<open>TypeError\<close>, as if the implementation had
  raised it. The implementation is not invoked.
\<close>

theorem call_with_null_argument_is_not_answered_invalid:
  "receive (run fresh [UserPublish point]) (Call 7 ''point'' (JArr [JNull])) =
     (run fresh [UserPublish point])
       \<lparr> wire := [Publish ''point'' (JArr [JObj [(''a'', H_number)]]) H_none,
                  ErrorMsg 7 (ExceptionText TypeError)] \<rparr> \<and>
   invoked (receive (run fresh [UserPublish point]) (Call 7 ''point'' (JArr [JNull]))) = []"
  by (simp add: scenario point_def validate.simps and_e_def lookup_or_undefined_def)

subsection \<open>Receiving a result\<close>

text \<open>
  A \<^verbatim>\<open>result{nonce, value}\<close> message for which an in-flight record exists has \<open>value\<close>
  validated against the return type of the record. When \<^verbatim>\<open>validate\<close> returns false the
  promise of the record is failed with \<^verbatim>\<open>"invalid return value from rpc <name>"\<close>, when it
  returns true the promise is resolved with \<open>value\<close>, and in both cases the record is
  deleted. When \<^verbatim>\<open>validate\<close> throws, nothing catches the exception: the record stays in
  flight and its promise is left unsettled. Without a record the message changes nothing.
  No \<^verbatim>\<open>result\<close> message ever makes the engine send anything.
\<close>

lemma result_settles_by_validation:
  "(map_of (inFlight s) nonce = Some rpc \<and> validate v (rpc_returns rpc) = Inr False \<longrightarrow>
      receive s (Result nonce v) =
        s\<lparr> settled := settled s @
              [(rpc_pid rpc, Failed (Text (''invalid return value from rpc '' @ rpc_name rpc)))],
           inFlight := AList.delete nonce (inFlight s) \<rparr>) \<and>
   (map_of (inFlight s) nonce = Some rpc \<and> validate v (rpc_returns rpc) = Inr True \<longrightarrow>
      receive s (Result nonce v) =
        s\<lparr> settled := settled s @ [(rpc_pid rpc, Resolved v)],
           inFlight := AList.delete nonce (inFlight s) \<rparr>) \<and>
   (map_of (inFlight s) nonce = Some rpc \<and> validate v (rpc_returns rpc) = Inl e \<longrightarrow>
      receive s (Result nonce v) = s\<lparr> uncaught := uncaught s @ [e] \<rparr>) \<and>
   (\<not> has_key (inFlight s) nonce \<longrightarrow> receive s (Result nonce v) = s) \<and>
   \<not> has_key (AList.delete nonce (inFlight s)) nonce \<and>
   wire (receive s (Result nonce v)) = wire s"
  by (auto simp: settle_def has_key_def keys_delete map_of_eq_None_iff [symmetric]
        split: option.splits sum.splits bool.splits)

lemma results_for_add:
  "receive one_pending (Result 1 (JStr ''x'')) =
     one_pending\<lparr> settled := [(0, Failed (Text ''invalid return value from rpc add''))],
                  inFlight := [] \<rparr> \<and>
   receive one_pending (Result 1 (JNum 3)) =
     one_pending\<lparr> settled := [(0, Resolved (JNum 3))], inFlight := [] \<rparr> \<and>
   receive one_pending (Result 2 (JNum 3)) = one_pending"
  by (simp add: scenario one_pending_def publish_add_def validate.simps)

text \<open>
  Claim C6. A \<^verbatim>\<open>result\<close> message for a nonce with an in-flight record is meant to settle
  the call, by failing its promise when the value does not validate and by resolving it
  otherwise, and to remove the record in both cases. The code does not when \<^verbatim>\<open>validate\<close>
  throws. The call of \<^verbatim>\<open>origin\<close>, whose return type is \<^verbatim>\<open>{a: H.number}\<close>, is pending under
  the nonce 1 with the promise 0. The message \<^verbatim>\<open>result{1, null}\<close> fails nothing and
  resolves nothing; the record is still in flight afterwards, and the \<^verbatim>\<open>TypeError\<close> has
  left the receive handler.
\<close>

theorem result_with_null_value_settles_nothing:
  "inFlight origin_pending =
     [(1, \<lparr> rpc_name = ''origin'', rpc_returns = JObj [(''a'', H_number)], rpc_pid = 0 \<rparr>)] \<and>
   receive origin_pending (Result 1 JNull) = origin_pending\<lparr> uncaught := [TypeError] \<rparr> \<and>
   settled (receive origin_pending (Result 1 JNull)) = [] \<and>
   inFlight (receive origin_pending (Result 1 JNull)) = inFlight origin_pending"
  by (simp add: scenario origin_pending_def publish_origin_def validate.simps
      lookup_or_undefined_def)

subsection \<open>Closing\<close>

lemma receive_completion_no_inflight:
  "inFlight s = [] \<Longrightarrow> is_completion m \<Longrightarrow> receive s m = s"
  by (cases m) simp_all

lemma is_open_call_handle [simp]: "is_open (call_handle s h p cargs) = is_open s"
  by (cases h) (simp_all add: call_live_def send_def settle_def Let_def)

lemma is_open_receive [simp]: "is_open (receive s m) = is_open s"
  by (cases m)
     (auto simp: send_def sendFunction_def settle_def drain_def
           split: option.splits sum.splits bool.splits jsval.splits)

lemma is_open_invoke [simp]: "is_open (invoke s c cargs) = is_open s"
  by (cases c) (simp_all add: new_promise_def enqueue_def split: option.splits)

lemma is_open_finish: "\<not> is_open s \<Longrightarrow> \<not> is_open (finish s i)"
  by (simp add: finish_def send_def Let_def split: outcome.splits)

lemma is_open_run_released [simp]: "is_open (run_released s) = is_open s"
  by (simp add: run_released_def resume_waiter_def send_def settle_def Let_def
        split: list.splits option.splits prod.splits)

lemma closed_stays_closed_step: "\<not> is_open s \<Longrightarrow> \<not> is_open (step s e)"
  by (cases e)
     (auto simp: publishFunction_def sendFunction_def send_def close_def is_open_finish
           split: sum.splits property.splits if_splits)

lemma closed_stays_closed: "\<not> is_open s \<Longrightarrow> \<not> is_open (run s es)"
  unfolding run_def by (induction es arbitrary: s) (simp_all add: closed_stays_closed_step)

lemma finish_closed_sends_no_result:
  "\<not> is_open s \<Longrightarrow> i < length (running s) \<Longrightarrow> run_outcome (running s ! i) = Returns v \<Longrightarrow>
   wire (finish s i) = wire s"
  by (simp add: finish_def Let_def)

lemma length_own_keys_order [simp]: "length (own_keys_order al) = length al"
  by (simp add: own_keys_order_def sum_length_filter_compl)

lemma set_own_keys_order [simp]: "set (own_keys_order al) = set al"
  by (auto simp: own_keys_order_def)

lemma quiet_close: "quiet (close s)"
  by (simp add: quiet_def close_def list_all_iff split_def)

lemma quiet_handle:
  "quiet s \<Longrightarrow> map_of (remoteFunctions s) k = Some h \<Longrightarrow> is_inert h"
  by (force simp: quiet_def list_all_iff dest!: map_of_SomeD)

lemma quiet_promises [simp]: "quiet (s\<lparr>promises := x\<rparr>) = quiet s"
  by (simp add: quiet_def)

lemma quiet_released [simp]: "quiet (s\<lparr>released := x\<rparr>) = quiet s"
  by (simp add: quiet_def)

lemma quiet_send [simp]: "quiet (send s m) = quiet s"
  by (simp add: quiet_def send_def)

lemma quiet_settle [simp]: "quiet (settle s p r) = quiet s"
  by (simp add: quiet_def settle_def)

lemma quiet_enqueue [simp]: "quiet (enqueue s nm w) = quiet s"
  by (simp add: quiet_def enqueue_def split: option.splits)

lemma quiet_call_inert: "quiet s \<Longrightarrow> is_inert h \<Longrightarrow> quiet (call_handle s h p cargs)"
  by (cases h) simp_all

lemma quiet_invoke:
  "quiet s \<Longrightarrow> \<not> revives (UserInvoke c cargs) \<Longrightarrow> quiet (invoke s c cargs)"
proof (cases c)
  case (ExpectWrapper nm)
  assume "quiet s"
  then show ?thesis using ExpectWrapper by (simp add: new_promise_def)
next
  case (RemoteFunction h)
  assume "quiet s" "\<not> revives (UserInvoke c cargs)"
  then show ?thesis using RemoteFunction
    by (cases h) (simp_all add: new_promise_def quiet_call_inert)
qed

lemma quiet_receive: "quiet s \<Longrightarrow> \<not> revives (Receive m) \<Longrightarrow> quiet (receive s m)"
  by (cases m)
     (auto simp: quiet_def send_def sendFunction_def
           split: option.splits sum.splits bool.splits jsval.splits)

lemma quiet_resume_waiter: "quiet s \<Longrightarrow> quiet (resume_waiter s nm w)"
proof (cases "map_of (remoteFunctions s) nm")
  case None
  assume "quiet s"
  then show ?thesis using None
    by (simp add: resume_waiter_def Let_def send_def settle_def quiet_def)
next
  case (Some h)
  assume q: "quiet s"
  then have "is_inert h" using Some by (rule quiet_handle)
  then show ?thesis using Some q quiet_call_inert [of "send s (Expect nm)" h]
    by (simp add: resume_waiter_def Let_def) (simp add: send_def)
qed

lemma quiet_run_released: "quiet s \<Longrightarrow> quiet (run_released s)"
  by (auto simp: run_released_def quiet_resume_waiter split: list.splits)

lemma quiet_finish: "quiet s \<Longrightarrow> quiet (finish s i)"
  by (simp add: finish_def Let_def quiet_def send_def split: outcome.splits)

lemma quiet_step: "quiet s \<Longrightarrow> \<not> revives e \<Longrightarrow> quiet (step s e)"
proof (cases e)
  case (UserPublish d)
  assume "quiet s"
  then show ?thesis using UserPublish
    by (auto simp: publishFunction_def sendFunction_def quiet_def send_def
          split: sum.splits if_splits)
next
  case (UserCall nm cargs)
  assume q: "quiet s"
  show ?thesis
  proof (cases "map_of (remoteFunctions s) nm")
    case None
    then show ?thesis using q UserCall
      by (simp add: get_def new_promise_def)
  next
    case (Some h)
    then have "is_inert h" using q by (simp add: quiet_handle)
    then show ?thesis using q UserCall Some
      by (simp add: get_def new_promise_def quiet_call_inert)
  qed
next
  case (UserInvoke c cargs)
  assume "quiet s" "\<not> revives e"
  then show ?thesis using UserInvoke by (simp add: quiet_invoke)
next
  case (Receive m)
  assume "quiet s" "\<not> revives e"
  then show ?thesis using Receive by (simp add: quiet_receive)
next
  case Close
  show ?thesis using Close by (simp add: quiet_close)
next
  case RunReleased
  assume "quiet s"
  then show ?thesis using RunReleased by (simp add: quiet_run_released)
next
  case (Finish i)
  assume "quiet s"
  then show ?thesis using Finish by (simp add: quiet_finish)
qed

lemma quiet_run: "quiet s \<Longrightarrow> \<not> list_ex revives es \<Longrightarrow> quiet (run s es)"
  unfolding run_def by (induction es arbitrary: s) (simp_all add: quiet_step)

lemma quiet_ignores_completion: "quiet s \<Longrightarrow> is_completion m \<Longrightarrow> receive s m = s"
  by (simp add: quiet_def receive_completion_no_inflight)

lemma completions_after_empty:
  "inFlight s = [] \<Longrightarrow> list_all is_completion ms \<Longrightarrow> foldl receive s ms = s"
  by (induction ms) (simp_all add: receive_completion_no_inflight)

lemma closed_channel_ignores_completions:
  "\<not> list_ex revives es \<Longrightarrow> is_completion m \<Longrightarrow>
   receive (run (close s) es) m = run (close s) es"
  using quiet_run [OF quiet_close] quiet_ignores_completion by blast

text \<open>
  Claim C2, as stated: a \<^verbatim>\<open>result\<close> or \<^verbatim>\<open>error\<close> message that is processed after the close
  settles no call. The receive handler does not look at \<^verbatim>\<open>open\<close>, and the close replaces
  the handles in the table only. So a call can be filed after the close, and its
  \<^verbatim>\<open>result\<close> settles it. The channel with the call \<^verbatim>\<open>add(1, 2)\<close> pending is closed, which
  fails that call. The user then calls the function that \<^verbatim>\<open>channel.add\<close> returned before
  the close, with \<^verbatim>\<open>(3, 4)\<close>: the \<^verbatim>\<open>result\<close> for its nonce 2 resolves its promise. On a
  new channel that is closed at once, a \<^verbatim>\<open>publish\<close> message for \<^verbatim>\<open>add\<close> that is still
  delivered makes a live handle, and the \<^verbatim>\<open>result\<close> for the call \<^verbatim>\<open>add(1, 2)\<close> made after
  that resolves its promise.
\<close>

theorem late_result_settles_after_close_counterexample:
  "settled (run one_pending [Close]) = [(0, Failed (Text ''Connection Closed''))] \<and>
   settled (run one_pending
      [Close, UserInvoke (RemoteFunction (Live ''add'' H_number)) [JNum 3, JNum 4],
       Receive (Result 2 (JNum 7))]) =
     [(0, Failed (Text ''Connection Closed'')), (1, Resolved (JNum 7))] \<and>
   settled (run fresh
      [Close, Receive publish_add, UserCall ''add'' [JNum 1, JNum 2]]) = [] \<and>
   settled (run fresh
      [Close, Receive publish_add, UserCall ''add'' [JNum 1, JNum 2],
       Receive (Result 1 (JNum 3))]) = [(0, Resolved (JNum 3))]"
  by (simp add: scenario one_pending_def publish_add_def validate.simps)

text \<open>
  Claim C2, amended. The close handler marks the engine not open, fails the promise of
  every in-flight record with \<^verbatim>\<open>"Connection Closed"\<close> (one settlement for each of the \<open>N\<close>
  records, in the order in which \<^verbatim>\<open>Object.keys\<close> lists them) and empties the in-flight table. The \<^verbatim>\<open>result\<close> and
  \<^verbatim>\<open>error\<close> messages processed straight after the close find no record: they leave the
  engine as the close left it and settle no call. The same holds after every run of events
  that brings no live handle back, which is one without a \<^verbatim>\<open>publish\<close> message and without
  the call of a live handle taken from the channel before the close; this is stated for
  function names that are no members of \<^verbatim>\<open>Object.prototype\<close>. The engine stays not open
  whatever happens later, and an implementation that returns while the engine is not open
  has no \<^verbatim>\<open>result\<close> sent for it.
\<close>

theorem close_fails_all_pending:
  "\<not> is_open (close s) \<and>
   inFlight (close s) = [] \<and>
   settled (close s) = settled s @
     map (\<lambda>(k, rpc). (rpc_pid rpc, Failed (Text ''Connection Closed'')))
       (own_keys_order (inFlight s)) \<and>
   length (settled (close s)) = length (settled s) + length (inFlight s) \<and>
   (\<forall>(k, rpc) \<in> set (inFlight s).
      (rpc_pid rpc, Failed (Text ''Connection Closed'')) \<in> set (settled (close s))) \<and>
   (\<forall>ms. list_all is_completion ms \<longrightarrow> foldl receive (close s) ms = close s) \<and>
   (\<forall>es m. plain_tables s \<and> list_all plain_event es \<and> \<not> list_ex revives es \<and>
      is_completion m \<longrightarrow>
      receive (run (close s) es) m = run (close s) es) \<and>
   (\<forall>es i v. i < length (running (run (close s) es)) \<and>
      run_outcome (running (run (close s) es) ! i) = Returns v \<longrightarrow>
      wire (finish (run (close s) es) i) = wire (run (close s) es))"
proof -
  have c: "\<not> is_open (close s)" "inFlight (close s) = []"
    by (simp_all add: close_def)
  have "\<forall>ms. list_all is_completion ms \<longrightarrow> foldl receive (close s) ms = close s"
    using completions_after_empty [OF c(2)] by blast
  moreover have "\<forall>es m. plain_tables s \<and> list_all plain_event es \<and> \<not> list_ex revives es \<and>
      is_completion m \<longrightarrow>
      receive (run (close s) es) m = run (close s) es"
    using closed_channel_ignores_completions by blast
  moreover have "\<forall>es i v. i < length (running (run (close s) es)) \<and>
      run_outcome (running (run (close s) es) ! i) = Returns v \<longrightarrow>
      wire (finish (run (close s) es) i) = wire (run (close s) es)"
    using finish_closed_sends_no_result closed_stays_closed [OF c(1)] by blast
  moreover have "\<forall>(k, rpc) \<in> set (inFlight s).
      (rpc_pid rpc, Failed (Text ''Connection Closed'')) \<in> set (settled (close s))"
    by (force simp: close_def)
  ultimately show ?thesis
    using c by (simp add: close_def)
qed

text \<open>
  Two calls of \<^verbatim>\<open>add\<close> are pending when the channel closes: both fail, and the messages
  \<^verbatim>\<open>result{2, 7}\<close> and \<^verbatim>\<open>error{1, "late"}\<close> that come then change nothing. Nor does
  \<^verbatim>\<open>result{3, 11}\<close> after a further call of \<^verbatim>\<open>add\<close> through the channel, which finds the
  handle that the close has put in. In the last channel \<^verbatim>\<open>noargs\<close>, called by the peer with
  nonce 9, is still running when the channel closes, and no \<^verbatim>\<open>result\<close> is sent when it
  returns.
\<close>

theorem close_witness:
  "settled (close two_pending) =
     [(0, Failed (Text ''Connection Closed'')), (1, Failed (Text ''Connection Closed''))] \<and>
   inFlight (close two_pending) = [] \<and>
   foldl receive (close two_pending) [Result 2 (JNum 7), ErrorMsg 1 (Text ''late'')] =
     close two_pending \<and>
   receive (run (close two_pending) [UserCall ''add'' [JNum 5, JNum 6]]) (Result 3 (JNum 11)) =
     run (close two_pending) [UserCall ''add'' [JNum 5, JNum 6]] \<and>
   wire (finish (run (close (run two_pending
           [UserPublish noargs, Receive (Call 9 ''noargs'' (JArr []))])) []) 0) =
     wire (run two_pending [UserPublish noargs])"
proof -
  let ?rpc1 = "\<lparr> rpc_name = ''add'', rpc_returns = JNum 2, rpc_pid = 0 \<rparr>"
  let ?rpc2 = "\<lparr> rpc_name = ''add'', rpc_returns = JNum 2, rpc_pid = 1 \<rparr>"
  let ?busy = "run two_pending [UserPublish noargs, Receive (Call 9 ''noargs'' (JArr []))]"
  let ?ms = "[Result 2 (JNum 7), ErrorMsg 1 (Text ''late'')]"
  let ?es = "[UserCall ''add'' [JNum 5, JNum 6]]"
  note pending = two_pending_def one_pending_def publish_add_def
  have a: "inFlight two_pending = [(1, ?rpc1), (2, ?rpc2)]" "settled two_pending = []"
    by (simp_all add: scenario pending)
  have b: "running (run (close ?busy) []) =
      [\<lparr> run_nonce = 9, run_outcome = Returns JUndefined \<rparr>]"
    by (simp add: scenario pending noargs_def validate.simps and_e_def)
  have c: "wire (run (close ?busy) []) = wire (run two_pending [UserPublish noargs])"
    by (simp add: scenario pending noargs_def validate.simps and_e_def)
  have d: "list_all is_completion ?ms"
    by simp
  have e: "plain_tables two_pending"
    by (simp add: scenario pending plain_tables_def plain_name_def object_prototype_members_def)
  have f: "list_all plain_event ?es" "\<not> list_ex revives ?es" "is_completion (Result 3 (JNum 11))"
    by (simp_all add: plain_name_def object_prototype_members_def)
  note T = close_fails_all_pending [of two_pending]
  note B = close_fails_all_pending [of ?busy]
  have t1: "settled (close two_pending) = settled two_pending @
     map (\<lambda>(k, rpc). (rpc_pid rpc, Failed (Text ''Connection Closed'')))
       (own_keys_order (inFlight two_pending))"
    using T by blast
  have t2: "inFlight (close two_pending) = []"
    using T by blast
  have t3: "foldl receive (close two_pending) ?ms = close two_pending"
    using T d by blast
  have t4: "0 < length (running (run (close ?busy) [])) \<and>
      run_outcome (running (run (close ?busy) []) ! 0) = Returns JUndefined \<longrightarrow>
      wire (finish (run (close ?busy) []) 0) = wire (run (close ?busy) [])"
    using B by blast
  have t5: "wire (finish (run (close ?busy) []) 0) = wire (run (close ?busy) [])"
    using t4 by (simp add: b)
  have t6: "plain_tables two_pending \<and> list_all plain_event ?es \<and> \<not> list_ex revives ?es \<and>
      is_completion (Result 3 (JNum 11)) \<longrightarrow>
      receive (run (close two_pending) ?es) (Result 3 (JNum 11)) = run (close two_pending) ?es"
    using T by blast
  have t7: "receive (run (close two_pending) ?es) (Result 3 (JNum 11)) =
      run (close two_pending) ?es"
    using t6 e f by blast
  show ?thesis
    using t1 t2 t3 t5 t7 c by (simp add: a own_keys_order_def)
qed

subsection \<open>Nonces\<close>

text \<open>The counter never gets smaller and never gets beyond \<open>2^53\<close>.\<close>

lemma counter_call_handle:
  "counter (call_handle s h p cargs) = counter s \<or>
   counter (call_handle s h p cargs) = increment (counter s)"
  by (cases h) (simp_all add: call_live_def send_def settle_def Let_def)

lemma counter_invoke:
  "counter (invoke s c cargs) = counter s \<or>
   counter (invoke s c cargs) = increment (counter s)"
proof (cases c)
  case (ExpectWrapper nm)
  then show ?thesis by (simp add: new_promise_def enqueue_def split: option.splits)
next
  case (RemoteFunction h)
  then show ?thesis
    using counter_call_handle [of "s\<lparr>promises := promises s + 1\<rparr>" h "promises s" cargs]
    by (simp add: new_promise_def)
qed

lemma counter_receive [simp]: "counter (receive s m) = counter s"
  by (cases m)
     (auto simp: send_def sendFunction_def settle_def drain_def
           split: option.splits sum.splits bool.splits jsval.splits)

lemma counter_run_released:
  "counter (run_released s) = counter s \<or> counter (run_released s) = increment (counter s)"
proof (cases "released s")
  case Nil
  then show ?thesis by (simp add: run_released_def)
next
  case (Cons a rest)
  obtain nm w where pw: "a = (nm, w)" by (cases a)
  let ?s1 = "send (s\<lparr>released := rest\<rparr>) (Expect nm)"
  have c: "counter ?s1 = counter s"
    by (simp add: send_def)
  show ?thesis
  proof (cases "map_of (remoteFunctions s) nm")
    case None
    then show ?thesis using Cons pw
      by (simp add: run_released_def resume_waiter_def Let_def send_def settle_def)
  next
    case (Some h)
    then show ?thesis
      using Cons pw c counter_call_handle [of ?s1 h "w_pid w" "w_args w"]
      by (simp add: run_released_def resume_waiter_def Let_def) (simp add: send_def)
  qed
qed

lemma counter_step:
  "counter (step s e) = counter s \<or> counter (step s e) = increment (counter s)"
proof (cases e)
  case (UserPublish d)
  then show ?thesis
    by (auto simp: publishFunction_def sendFunction_def send_def split: sum.splits if_splits)
next
  case (UserCall nm cargs)
  then show ?thesis
    using counter_invoke by (auto split: property.splits)
next
  case (UserInvoke c cargs)
  then show ?thesis
    using counter_invoke by simp
next
  case (Receive m)
  then show ?thesis by simp
next
  case Close
  then show ?thesis by (simp add: close_def)
next
  case RunReleased
  then show ?thesis using counter_run_released by simp
next
  case (Finish i)
  then show ?thesis
    by (simp add: finish_def Let_def send_def split: outcome.splits)
qed

lemma counter_step_mono: "counter s \<le> counter (step s e)"
  using counter_step [of s e] increment_ge [of "counter s"] by auto

lemma counter_run_mono: "counter s \<le> counter (run s es)"
  unfolding run_def
proof (induction es arbitrary: s)
  case Nil
  show ?case by simp
next
  case (Cons e es)
  show ?case
    using counter_step_mono [of s e] Cons [of "step s e"] by simp
qed

lemma counter_step_bounded: "counter s \<le> nonce_limit \<Longrightarrow> counter (step s e) \<le> nonce_limit"
  using counter_step [of s e] by (auto simp: increment_def split: if_splits)

lemma counter_run_bounded: "counter s \<le> nonce_limit \<Longrightarrow> counter (run s es) \<le> nonce_limit"
  unfolding run_def by (induction es arbitrary: s) (simp_all add: counter_step_bounded)

lemma nonce_inv_iff:
  "nonce_inv s =
     (1 \<le> counter s \<and>
      (counter s < nonce_limit \<longrightarrow>
         call_nonces (wire s) = [1..<counter s] \<and>
         (\<forall>n \<in> fst ` set (inFlight s). n < counter s)))"
  by (auto simp: nonce_inv_def list_all_iff)

lemma nonce_inv_fresh: "nonce_inv fresh"
  by (simp add: nonce_inv_def fresh_def)

lemma nonce_inv_publishFunction:
  "nonce_inv s \<Longrightarrow> publishFunction s d = Inr s1 \<Longrightarrow> nonce_inv s1"
  by (auto simp: nonce_inv_def publishFunction_def sendFunction_def send_def split: if_splits)

lemma nonce_inv_publish_all:
  "nonce_inv s \<Longrightarrow> publish_all s ds = Inr s1 \<Longrightarrow> nonce_inv s1"
  by (induction ds arbitrary: s) (auto split: sum.splits dest: nonce_inv_publishFunction)

lemma counter_publishFunction:
  "publishFunction s d = Inr s1 \<Longrightarrow> counter s1 = counter s"
  by (auto simp: publishFunction_def sendFunction_def send_def split: if_splits)

lemma counter_publish_all:
  "publish_all s ds = Inr s1 \<Longrightarrow> counter s1 = counter s"
  by (induction ds arbitrary: s) (auto split: sum.splits dest: counter_publishFunction)

lemma nonce_inv_call_live:
  "nonce_inv s \<Longrightarrow> nonce_inv (call_live s name returns p cargs)"
  by (auto simp: nonce_inv_iff call_live_def send_def Let_def keys_update upt_Suc_append
        increment_def simp flip: Suc_eq_plus1 split: if_splits)

lemma nonce_inv_settle: "nonce_inv s \<Longrightarrow> nonce_inv (settle s p r)"
  by (simp add: nonce_inv_def settle_def)

lemma nonce_inv_send_other:
  "nonce_inv s \<Longrightarrow> call_nonces [m] = [] \<Longrightarrow> nonce_inv (send s m)"
  by (simp add: nonce_inv_def send_def)

lemma nonce_inv_call_handle:
  "nonce_inv s \<Longrightarrow> nonce_inv (call_handle s h p cargs)"
  by (cases h) (simp_all add: nonce_inv_call_live nonce_inv_settle)

lemma nonce_inv_promises [simp]: "nonce_inv (s\<lparr>promises := x\<rparr>) = nonce_inv s"
  by (simp add: nonce_inv_def)

lemma nonce_inv_expected [simp]: "nonce_inv (s\<lparr>expected := x\<rparr>) = nonce_inv s"
  by (simp add: nonce_inv_def)

lemma nonce_inv_released [simp]: "nonce_inv (s\<lparr>released := x\<rparr>) = nonce_inv s"
  by (simp add: nonce_inv_def)

lemma nonce_inv_remoteFunctions [simp]: "nonce_inv (s\<lparr>remoteFunctions := x\<rparr>) = nonce_inv s"
  by (simp add: nonce_inv_def)

lemma nonce_inv_running [simp]: "nonce_inv (s\<lparr>running := x\<rparr>) = nonce_inv s"
  by (simp add: nonce_inv_def)

lemma nonce_inv_invoked [simp]: "nonce_inv (s\<lparr>invoked := x\<rparr>) = nonce_inv s"
  by (simp add: nonce_inv_def)

lemma nonce_inv_uncaught [simp]: "nonce_inv (s\<lparr>uncaught := x\<rparr>) = nonce_inv s"
  by (simp add: nonce_inv_def)

lemma nonce_inv_settle_delete:
  "nonce_inv s \<Longrightarrow> nonce_inv ((settle s p r)\<lparr>inFlight := AList.delete n (inFlight s)\<rparr>)"
  by (auto simp: nonce_inv_iff keys_delete settle_def)

lemma nonce_inv_invoke: "nonce_inv s \<Longrightarrow> nonce_inv (invoke s c cargs)"
  by (cases c)
     (auto simp: new_promise_def enqueue_def nonce_inv_call_handle split: option.splits)

lemma nonce_inv_drain: "nonce_inv s \<Longrightarrow> nonce_inv (drain s name)"
  by (simp add: drain_def split: option.splits)

lemma nonce_inv_receive: "nonce_inv s \<Longrightarrow> nonce_inv (receive s m)"
proof (cases m)
  case (Call n name args)
  assume "nonce_inv s"
  then show ?thesis using Call
    by (auto simp: nonce_inv_send_other split: option.splits sum.splits bool.splits jsval.splits)
next
  case (Result n v)
  assume "nonce_inv s"
  then show ?thesis using Result
    by (auto simp: nonce_inv_settle_delete split: option.splits sum.splits bool.splits)
next
  case (ErrorMsg n msg)
  assume "nonce_inv s"
  then show ?thesis using ErrorMsg
    by (auto simp: nonce_inv_settle_delete split: option.splits)
qed (auto simp: nonce_inv_drain sendFunction_def nonce_inv_send_other split: option.splits)

lemma nonce_inv_close: "nonce_inv s \<Longrightarrow> nonce_inv (close s)"
  by (simp add: nonce_inv_def close_def)

lemma nonce_inv_resume_waiter: "nonce_inv s \<Longrightarrow> nonce_inv (resume_waiter s nm w)"
  by (auto simp: resume_waiter_def Let_def
        intro!: nonce_inv_call_handle nonce_inv_settle nonce_inv_send_other
        split: option.splits)

lemma nonce_inv_run_released: "nonce_inv s \<Longrightarrow> nonce_inv (run_released s)"
  by (auto simp: run_released_def nonce_inv_resume_waiter split: list.splits)

lemma nonce_inv_finish: "nonce_inv s \<Longrightarrow> nonce_inv (finish s i)"
  by (auto simp: finish_def Let_def intro!: nonce_inv_send_other split: outcome.splits)

lemma nonce_inv_step: "nonce_inv s \<Longrightarrow> nonce_inv (step s e)"
  by (cases e)
     (auto simp: nonce_inv_invoke nonce_inv_receive nonce_inv_close nonce_inv_run_released
        nonce_inv_finish split: sum.splits property.splits dest: nonce_inv_publishFunction)

lemma nonce_inv_run: "nonce_inv s \<Longrightarrow> nonce_inv (run s es)"
  unfolding run_def by (induction es arbitrary: s) (simp_all add: nonce_inv_step)

text \<open>
  A record of the in-flight table whose key is below the counter stays as it is under
  every event other than a completion for its own nonce and the close: a later call takes
  the counter as its nonce.
\<close>

lemma inFlight_key_below_counter:
  "nonce_inv s \<Longrightarrow> counter s < nonce_limit \<Longrightarrow> map_of (inFlight s) n = Some rpc \<Longrightarrow>
   n < counter s"
  by (force simp: nonce_inv_iff dest!: map_of_SomeD)

lemma counter_not_in_flight:
  "nonce_inv s \<Longrightarrow> counter s < nonce_limit \<Longrightarrow> \<not> has_key (inFlight s) (counter s)"
  by (auto simp: nonce_inv_iff has_key_def)

lemma stable_call_handle:
  "n < counter s \<Longrightarrow> map_of (inFlight s) n = Some rpc \<Longrightarrow>
   map_of (inFlight (call_handle s h p cargs)) n = Some rpc"
  by (cases h) (auto simp: call_live_def send_def settle_def Let_def update_conv)

lemma stable_invoke:
  "n < counter s \<Longrightarrow> map_of (inFlight s) n = Some rpc \<Longrightarrow>
   map_of (inFlight (invoke s c cargs)) n = Some rpc"
proof (cases c)
  case (ExpectWrapper nm)
  assume "map_of (inFlight s) n = Some rpc"
  then show ?thesis using ExpectWrapper
    by (simp add: new_promise_def enqueue_def split: option.splits)
next
  case (RemoteFunction h)
  assume "n < counter s" "map_of (inFlight s) n = Some rpc"
  then show ?thesis using RemoteFunction
      stable_call_handle [of n "s\<lparr>promises := promises s + 1\<rparr>" rpc h "promises s"]
    by (simp add: new_promise_def)
qed

lemma stable_receive:
  "map_of (inFlight s) n = Some rpc \<Longrightarrow> \<not> completes n (Receive m) \<Longrightarrow>
   map_of (inFlight (receive s m)) n = Some rpc"
  by (cases m)
     (auto simp: send_def sendFunction_def settle_def drain_def delete_conv
           split: option.splits sum.splits bool.splits jsval.splits)

lemma stable_run_released:
  "n < counter s \<Longrightarrow> map_of (inFlight s) n = Some rpc \<Longrightarrow>
   map_of (inFlight (run_released s)) n = Some rpc"
proof (cases "released s")
  case Nil
  assume "map_of (inFlight s) n = Some rpc"
  then show ?thesis using Nil by (simp add: run_released_def)
next
  case (Cons a rest)
  assume a: "n < counter s" "map_of (inFlight s) n = Some rpc"
  obtain nm w where pw: "a = (nm, w)" by (cases a)
  let ?s1 = "send (s\<lparr>released := rest\<rparr>) (Expect nm)"
  have "n < counter ?s1" "map_of (inFlight ?s1) n = Some rpc"
    using a by (simp_all add: send_def)
  then have "map_of (inFlight (call_handle ?s1 h (w_pid w) (w_args w))) n = Some rpc" for h
    by (rule stable_call_handle)
  then show ?thesis using Cons pw a
    by (auto simp: run_released_def resume_waiter_def Let_def split: option.splits)
       (simp add: send_def settle_def)
qed

lemma stable_finish:
  "map_of (inFlight s) n = Some rpc \<Longrightarrow> map_of (inFlight (finish s i)) n = Some rpc"
  by (simp add: finish_def Let_def send_def split: outcome.splits)

lemma stable_step:
  "n < counter s \<Longrightarrow> map_of (inFlight s) n = Some rpc \<Longrightarrow> \<not> completes n e \<Longrightarrow>
   map_of (inFlight (step s e)) n = Some rpc"
proof (cases e)
  case (UserPublish d)
  assume "map_of (inFlight s) n = Some rpc"
  then show ?thesis using UserPublish
    by (auto simp: publishFunction_def sendFunction_def send_def split: sum.splits if_splits)
next
  case (UserCall nm cargs)
  assume "n < counter s" "map_of (inFlight s) n = Some rpc"
  then show ?thesis using UserCall by (auto simp: stable_invoke split: property.splits)
next
  case (UserInvoke c cargs)
  assume "n < counter s" "map_of (inFlight s) n = Some rpc"
  then show ?thesis using UserInvoke by (simp add: stable_invoke)
next
  case (Receive m)
  assume "map_of (inFlight s) n = Some rpc" "\<not> completes n e"
  then show ?thesis using Receive by (simp add: stable_receive)
next
  case Close
  assume "\<not> completes n e"
  then show ?thesis using Close by simp
next
  case RunReleased
  assume "n < counter s" "map_of (inFlight s) n = Some rpc"
  then show ?thesis using RunReleased by (simp add: stable_run_released)
next
  case (Finish i)
  assume "map_of (inFlight s) n = Some rpc"
  then show ?thesis using Finish by (simp add: stable_finish)
qed

lemma stable_run:
  "n < counter s \<Longrightarrow> map_of (inFlight s) n = Some rpc \<Longrightarrow> \<not> list_ex (completes n) es \<Longrightarrow>
   map_of (inFlight (run s es)) n = Some rpc"
  unfolding run_def
proof (induction es arbitrary: s)
  case Nil
  then show ?case by simp
next
  case (Cons e es)
  have "n < counter (step s e)"
    using Cons.prems(1) counter_step_mono [of s e] by simp
  moreover have "map_of (inFlight (step s e)) n = Some rpc"
    using Cons.prems by (simp add: stable_step)
  ultimately show ?case
    using Cons.IH [of "step s e"] Cons.prems(3) by simp
qed

lemma createChannel_counter: "createChannel pubs = Inr s0 \<Longrightarrow> counter s0 = 1"
  using counter_publish_all [of fresh pubs s0] by (simp add: createChannel_def fresh_def)

lemma createChannel_nonce_inv: "createChannel pubs = Inr s0 \<Longrightarrow> nonce_inv s0"
  using nonce_inv_publish_all [OF nonce_inv_fresh] by (simp add: createChannel_def)

lemma createChannel_counter_bounded:
  "createChannel pubs = Inr s0 \<Longrightarrow> counter (run s0 es) \<le> nonce_limit"
  using createChannel_counter [of pubs s0] counter_run_bounded [of s0 es] nonce_limit_gt_1
  by simp

lemma live_call_draws_counter:
  "wire (invoke s (RemoteFunction (Live name returns)) args) =
     wire s @ [Call (counter s) name (JArr args)] \<and>
   counter (invoke s (RemoteFunction (Live name returns)) args) = increment (counter s) \<and>
   map_of (inFlight (invoke s (RemoteFunction (Live name returns)) args)) (counter s) =
     Some \<lparr> rpc_name = name, rpc_returns = returns, rpc_pid = promises s \<rparr>"
  by (simp add: new_promise_def call_live_def send_def Let_def update_conv)

lemma completion_settles_record:
  "map_of (inFlight t) n = Some rpc \<Longrightarrow>
   settled (receive t (ErrorMsg n msg)) = settled t @ [(rpc_pid rpc, Failed msg)] \<and>
   (validate v (rpc_returns rpc) = Inr True \<longrightarrow>
      settled (receive t (Result n v)) = settled t @ [(rpc_pid rpc, Resolved v)]) \<and>
   (validate v (rpc_returns rpc) = Inr False \<longrightarrow>
      settled (receive t (Result n v)) = settled t @
        [(rpc_pid rpc, Failed (Text (''invalid return value from rpc '' @ rpc_name rpc)))])"
  by (simp add: settle_def)

text \<open>
  No promise is waited for twice. Every event leaves the promises to be settled as they
  were, drops some, or adds the one promise it has just made; so in a channel that started
  with none they are all different, and two in-flight records never share a promise.
\<close>

lemma mset_update_absent:
  "map_of al k = None \<Longrightarrow>
   mset (concat (map g (AList.update k v al))) = mset (concat (map g al)) + mset (g (k, v))"
  by (induction al) (auto split: if_splits)

lemma mset_update_present:
  "map_of al k = Some v0 \<Longrightarrow>
   mset (concat (map g (AList.update k v al))) + mset (g (k, v0)) =
   mset (concat (map g al)) + mset (g (k, v))"
  by (induction al) (auto split: if_splits)

lemma mset_map_update_le:
  "mset (map f (AList.update k v al)) \<subseteq># mset (map f al) + {#f (k, v)#}"
  by (induction al) (auto simp: subset_mset.add_increasing2 intro: subset_mset.order_trans)

lemma mset_map_delete_le: "mset (map f (AList.delete k al)) \<subseteq># mset (map f al)"
  by (induction al) (auto intro: subset_mset.order_trans)

lemma waiting_enqueue:
  "\<not> w_released w \<Longrightarrow>
   mset (waiting_pids (enqueue s nm w)) = mset (waiting_pids s) + {#w_pid w#}"
proof (cases "map_of (expected s) nm")
  case None
  assume "\<not> w_released w"
  then show ?thesis
    using None mset_update_absent [of "expected s" nm unreleased_pids "[w]"]
    by (simp add: waiting_pids_def enqueue_def unreleased_pids_def)
next
  case (Some ws)
  assume "\<not> w_released w"
  then show ?thesis
    using Some mset_update_present [of "expected s" nm ws unreleased_pids "ws @ [w]"]
    by (simp add: waiting_pids_def enqueue_def unreleased_pids_def)
qed

lemma waiting_drain: "mset (waiting_pids (drain s name)) = mset (waiting_pids s)"
proof (cases "map_of (expected s) name")
  case None
  then show ?thesis by (simp add: drain_def)
next
  case (Some ws)
  have "mset (map (\<lambda>e. w_pid (snd e)) (map (Pair name) (filter (\<lambda>w. \<not> w_released w) ws))) =
      mset (unreleased_pids (name, ws))"
    by (simp add: unreleased_pids_def comp_def)
  moreover have "unreleased_pids (name, map (\<lambda>w. w\<lparr>w_released := True\<rparr>) ws) = []"
    by (simp add: unreleased_pids_def)
  ultimately show ?thesis
    using Some mset_update_present [of "expected s" name ws unreleased_pids
        "map (\<lambda>w. w\<lparr>w_released := True\<rparr>) ws"]
    by (simp add: waiting_pids_def drain_def add.commute)
qed

lemma waiting_call_handle:
  "mset (waiting_pids (call_handle s h p cargs)) \<subseteq># mset (waiting_pids s) + {#p#}"
proof (cases h)
  case (Live name returns)
  show ?thesis
    using mset_map_update_le [of "\<lambda>e. rpc_pid (snd e)" "counter s"
        "\<lparr>rpc_name = name, rpc_returns = returns, rpc_pid = p\<rparr>" "inFlight s"]
    by (simp add: Live waiting_pids_def call_live_def send_def Let_def)
next
  case (Inert k)
  then show ?thesis by (simp add: waiting_pids_def settle_def)
qed

lemma promises_call_handle [simp]: "promises (call_handle s h p cargs) = promises s"
  by (cases h) (simp_all add: call_live_def send_def settle_def Let_def)

lemma waiting_invoke:
  "mset (waiting_pids (invoke s c cargs)) \<subseteq># mset (waiting_pids s) + {#promises s#} \<and>
   promises (invoke s c cargs) = promises s + 1"
proof (cases c)
  case (ExpectWrapper nm)
  show ?thesis
    using waiting_enqueue
      [of "\<lparr>w_pid = promises s, w_args = cargs, w_released = False\<rparr>"
          "s\<lparr>promises := promises s + 1\<rparr>" nm]
    by (simp add: ExpectWrapper new_promise_def waiting_pids_def)
       (simp add: enqueue_def split: option.splits)
next
  case (RemoteFunction h)
  show ?thesis
    using waiting_call_handle [of "s\<lparr>promises := promises s + 1\<rparr>" h "promises s" cargs]
    by (simp add: RemoteFunction new_promise_def waiting_pids_def)
qed

lemma waiting_receive:
  "mset (waiting_pids (receive s m)) \<subseteq># mset (waiting_pids s) \<and>
   promises (receive s m) = promises s"
proof (cases m)
  case (Publish name args returns)
  show ?thesis
    using waiting_drain
      [of "s\<lparr>remoteFunctions := AList.update name (Live name returns) (remoteFunctions s)\<rparr>"
          name]
    by (simp add: Publish waiting_pids_def) (simp add: drain_def split: option.splits)
next
  case (Call n name args)
  then show ?thesis
    by (auto simp: waiting_pids_def send_def split: option.splits sum.splits bool.splits
          jsval.splits)
next
  case (Result n v)
  then show ?thesis
    using mset_map_delete_le [of "\<lambda>e. rpc_pid (snd e)" n "inFlight s"]
    by (auto simp: waiting_pids_def settle_def split: option.splits sum.splits bool.splits)
next
  case (ErrorMsg n msg)
  then show ?thesis
    using mset_map_delete_le [of "\<lambda>e. rpc_pid (snd e)" n "inFlight s"]
    by (auto simp: waiting_pids_def settle_def split: option.splits)
next
  case (Expect name)
  then show ?thesis
    by (auto simp: waiting_pids_def sendFunction_def send_def split: option.splits)
qed

lemma waiting_run_released:
  "mset (waiting_pids (run_released s)) \<subseteq># mset (waiting_pids s) \<and>
   promises (run_released s) = promises s"
proof (cases "released s")
  case Nil
  then show ?thesis by (simp add: run_released_def)
next
  case (Cons a rest)
  obtain nm w where pw: "a = (nm, w)" by (cases a)
  let ?s1 = "send (s\<lparr>released := rest\<rparr>) (Expect nm)"
  have w1: "mset (waiting_pids ?s1) + {#w_pid w#} = mset (waiting_pids s)"
    using Cons pw by (simp add: waiting_pids_def send_def)
  have "mset (waiting_pids (resume_waiter (s\<lparr>released := rest\<rparr>) nm w)) \<subseteq>#
      mset (waiting_pids ?s1) + {#w_pid w#}"
  proof (cases "map_of (remoteFunctions s) nm")
    case None
    then show ?thesis
      by (simp add: resume_waiter_def Let_def send_def settle_def waiting_pids_def)
  next
    case (Some h)
    then show ?thesis
      using waiting_call_handle [of ?s1 h "w_pid w" "w_args w"]
      by (simp add: resume_waiter_def Let_def) (simp add: send_def)
  qed
  moreover have "promises (resume_waiter (s\<lparr>released := rest\<rparr>) nm w) = promises s"
    by (simp add: resume_waiter_def Let_def send_def settle_def split: option.splits)
  ultimately show ?thesis
    using Cons pw w1 by (simp add: run_released_def)
qed

lemma waiting_step:
  "mset (waiting_pids (step s e)) \<subseteq>#
     mset (waiting_pids s) + mset [promises s..<promises (step s e)] \<and>
   promises s \<le> promises (step s e)"
proof (cases e)
  case (UserPublish d)
  then show ?thesis
    by (auto simp: publishFunction_def sendFunction_def send_def waiting_pids_def
          split: sum.splits if_splits)
next
  case (UserCall nm cargs)
  then show ?thesis
    using waiting_invoke by (auto split: property.splits)
next
  case (UserInvoke c cargs)
  then show ?thesis
    using waiting_invoke by auto
next
  case (Receive m)
  then show ?thesis
    using waiting_receive [of s m] by simp
next
  case Close
  then show ?thesis
    by (simp add: close_def waiting_pids_def)
next
  case RunReleased
  then show ?thesis
    using waiting_run_released [of s] by simp
next
  case (Finish i)
  then show ?thesis
    by (simp add: finish_def Let_def send_def waiting_pids_def split: outcome.splits)
qed

lemma mset_upt_split:
  "a \<le> b \<Longrightarrow> b \<le> c \<Longrightarrow> mset [a..<b] + mset [b..<c] = mset [a..<(c::nat)]"
  by (metis less_eqE mset_append upt_add_eq_append)

lemma mset_le_trans_add:
  "(A::nat multiset) \<subseteq># B + Y \<Longrightarrow> B \<subseteq># C + X \<Longrightarrow> A \<subseteq># C + (X + Y)"
  by (metis (no_types, lifting) add.assoc subset_eq_diff_conv
      subset_mset.dual_order.trans)

lemma waiting_run:
  "mset (waiting_pids (run s es)) \<subseteq>#
     mset (waiting_pids s) + mset [promises s..<promises (run s es)] \<and>
   promises s \<le> promises (run s es)"
proof (induction es arbitrary: s)
  case Nil
  show ?case by (simp add: run_def)
next
  case (Cons e es)
  let ?t = "step s e"
  have r: "run s (e # es) = run ?t es"
    by (simp add: run_def)
  have st: "mset (waiting_pids ?t) \<subseteq># mset (waiting_pids s) + mset [promises s..<promises ?t]"
    "promises s \<le> promises ?t"
    using waiting_step [of s e] by blast+
  have ih: "mset (waiting_pids (run ?t es)) \<subseteq>#
      mset (waiting_pids ?t) + mset [promises ?t..<promises (run ?t es)]"
    "promises ?t \<le> promises (run ?t es)"
    using Cons.IH [of ?t] by blast+
  have "mset (waiting_pids (run ?t es)) \<subseteq>#
      mset (waiting_pids s) + (mset [promises s..<promises ?t] +
        mset [promises ?t..<promises (run ?t es)])"
    using ih(1) st(1) by (rule mset_le_trans_add)
  then have "mset (waiting_pids (run ?t es)) \<subseteq>#
      mset (waiting_pids s) + mset [promises s..<promises (run ?t es)]"
    unfolding mset_upt_split [OF st(2) ih(2)] .
  moreover have "promises s \<le> promises (run ?t es)"
    using st(2) ih(2) by (rule order_trans)
  ultimately show ?case
    unfolding r by (rule conjI)
qed

lemma distinct_of_mset_le:
  assumes "distinct ys" "mset xs \<subseteq># mset ys"
  shows "distinct xs"
proof -
  have le: "count (mset xs) a \<le> 1" for a
  proof -
    have "count (mset xs) a \<le> count (mset ys) a"
      using assms(2) by (rule mset_subset_eq_count)
    also have "\<dots> \<le> 1"
      using assms(1) by (simp add: distinct_count_atmost_1)
    finally show ?thesis .
  qed
  have "count (mset xs) a = (if a \<in> set xs then 1 else 0)" for a
  proof (cases "a \<in> set xs")
    case True
    then have "0 < count (mset xs) a" by simp
    then have "count (mset xs) a = 1" using le [of a] by linarith
    then show ?thesis using True by simp
  next
    case False
    then show ?thesis by (simp add: count_mset_0_iff)
  qed
  then show ?thesis
    by (simp add: distinct_count_atmost_1)
qed

lemma waiting_publish_all:
  "publish_all s ds = Inr s1 \<Longrightarrow> waiting_pids s1 = waiting_pids s \<and> promises s1 = promises s"
  by (induction ds arbitrary: s)
     (auto simp: publishFunction_def sendFunction_def send_def waiting_pids_def
        split: sum.splits if_splits)

lemma waiting_distinct:
  assumes "createChannel pubs = Inr s0"
  shows "distinct (waiting_pids (run s0 es))"
proof -
  have "waiting_pids s0 = []" "promises s0 = 0"
    using assms waiting_publish_all [of fresh pubs s0]
    by (simp_all add: createChannel_def) (simp_all add: waiting_pids_def fresh_def)
  then have "mset (waiting_pids (run s0 es)) \<subseteq># mset [0..<promises (run s0 es)]"
    using waiting_run [of s0 es] by simp
  then show ?thesis
    using distinct_of_mset_le [of "[0..<promises (run s0 es)]"] by simp
qed

text \<open>
  The calls \<^verbatim>\<open>channel.nm(...)\<close> of a function with a live handle, one after the other,
  send \<^verbatim>\<open>call\<close> messages with the values the counter takes: it counts up to \<open>2^53\<close> and
  stays there.
\<close>

lemma repeated_calls_nonces:
  assumes "map_of (remoteFunctions s) nm = Some (Live nm r)" and "nm \<noteq> ''publish''"
    and "counter s \<le> nonce_limit"
  shows "call_nonces (wire (run s (replicate n (UserCall nm cargs)))) =
     call_nonces (wire s) @ map (\<lambda>i. min (counter s + i) nonce_limit) [0..<n]"
  using assms
proof (induction n arbitrary: s)
  case 0
  show ?case by (simp add: run_def)
next
  case (Suc n)
  define t where "t = step s (UserCall nm cargs)"
  have t: "t = invoke s (RemoteFunction (Live nm r)) cargs"
    unfolding t_def using Suc.prems(1,2) by (simp add: get_def)
  have t1: "map_of (remoteFunctions t) nm = Some (Live nm r)"
    "counter t = increment (counter s)"
    "wire t = wire s @ [Call (counter s) nm (JArr cargs)]"
    using Suc.prems(1) unfolding t
    by (simp_all add: new_promise_def call_live_def send_def Let_def)
  have le: "counter t \<le> nonce_limit"
    unfolding t1(2) using Suc.prems(3) by (simp add: increment_def)
  have r: "run s (replicate (Suc n) (UserCall nm cargs)) =
      run t (replicate n (UserCall nm cargs))"
    unfolding t_def by (simp add: run_def)
  have m: "min (increment (counter s) + i) nonce_limit = min (counter s + Suc i) nonce_limit"
    for i
    using Suc.prems(3) by (simp add: increment_def)
  have m0: "min (counter s + 0) nonce_limit = counter s"
    using Suc.prems(3) by simp
  have u: "map (\<lambda>i. min (counter s + i) nonce_limit) [0..<Suc n] =
      counter s # map (\<lambda>i. min (increment (counter s) + i) nonce_limit) [0..<n]"
    unfolding map_upt_Suc m0 m ..
  have "call_nonces (wire (run t (replicate n (UserCall nm cargs)))) =
      call_nonces (wire t) @ map (\<lambda>i. min (counter t + i) nonce_limit) [0..<n]"
    using t1(1) Suc.prems(2) le by (rule Suc.IH)
  then show ?case
    unfolding r u t1(2) t1(3) by simp
qed

lemma map_upt_not_distinct:
  "i < j \<Longrightarrow> j < n \<Longrightarrow> f i = f j \<Longrightarrow> \<not> distinct (map f [0..<n])"
  by (auto simp: distinct_map dest!: inj_onD [where x = i and y = j])

text \<open>
  Claim C4, as stated: no nonce is ever reused, and the \<^verbatim>\<open>result\<close> message for a nonce
  settles the call made with it. The counter is a JavaScript number, on which
  \<^verbatim>\<open>counter++\<close> has no effect any more at \<open>2^53\<close>: after the \<^verbatim>\<open>publish\<close> message for \<^verbatim>\<open>add\<close>
  and \<open>2^53 + 1\<close> calls of \<^verbatim>\<open>add\<close>, the last two \<^verbatim>\<open>call\<close> messages both carry the nonce
  \<open>2^53\<close>. And a \<^verbatim>\<open>result\<close> message on whose value \<^verbatim>\<open>validate\<close> throws settles nothing:
  with the call of \<^verbatim>\<open>origin\<close> pending under the nonce 1, \<^verbatim>\<open>result{1, null}\<close> leaves the
  promise of the call unsettled and the record in flight.
\<close>

theorem nonce_reuse_counterexample:
  "\<not> distinct (call_nonces (wire (run fresh
       (Receive publish_add # replicate (nonce_limit + 1) (UserCall ''add'' []))))) \<and>
   map_of (inFlight origin_pending) 1 =
     Some \<lparr> rpc_name = ''origin'', rpc_returns = JObj [(''a'', H_number)], rpc_pid = 0 \<rparr> \<and>
   settled (receive origin_pending (Result 1 JNull)) = settled origin_pending \<and>
   inFlight (receive origin_pending (Result 1 JNull)) = inFlight origin_pending"
proof -
  define s1 where "s1 = step fresh (Receive publish_add)"
  define f where "f = (\<lambda>i. min (counter s1 + i) nonce_limit)"
  have r: "run fresh (Receive publish_add # replicate (nonce_limit + 1) (UserCall ''add'' [])) =
      run s1 (replicate (nonce_limit + 1) (UserCall ''add'' []))"
    unfolding s1_def by (simp add: run_def)
  have s1: "map_of (remoteFunctions s1) ''add'' = Some (Live ''add'' H_number)"
    "counter s1 = 1" "wire s1 = []"
    unfolding s1_def by (simp_all add: fresh_def publish_add_def has_key_def drain_def)
  have le: "counter s1 \<le> nonce_limit"
    unfolding s1(2) using nonce_limit_gt_1 by simp
  have n: "call_nonces (wire (run s1 (replicate (nonce_limit + 1) (UserCall ''add'' [])))) =
      call_nonces (wire s1) @ map f [0..<nonce_limit + 1]"
    unfolding f_def using s1(1) _ le by (rule repeated_calls_nonces) simp
  have "f (nonce_limit - 1) = f nonce_limit"
    unfolding f_def s1(2) using nonce_limit_gt_1 by simp
  moreover have "nonce_limit - 1 < nonce_limit" "nonce_limit < nonce_limit + 1"
    using nonce_limit_gt_1 by simp_all
  ultimately have "\<not> distinct (map f [0..<nonce_limit + 1])"
    by (rule map_upt_not_distinct [rotated 2])
  then have a: "\<not> distinct (call_nonces (wire (run fresh
       (Receive publish_add # replicate (nonce_limit + 1) (UserCall ''add'' [])))))"
    unfolding r n s1(3) by simp
  have b: "map_of (inFlight origin_pending) 1 =
     Some \<lparr> rpc_name = ''origin'', rpc_returns = JObj [(''a'', H_number)], rpc_pid = 0 \<rparr>"
    "settled (receive origin_pending (Result 1 JNull)) = settled origin_pending"
    "inFlight (receive origin_pending (Result 1 JNull)) = inFlight origin_pending"
    by (simp_all add: scenario origin_pending_def publish_origin_def validate.simps
        lookup_or_undefined_def)
  show ?thesis
    using a b by blast
qed

text \<open>
  Claim C4, amended. In a channel \<open>s0\<close> as \<^verbatim>\<open>createChannel\<close> returns it the counter is 1.
  In every state \<open>s\<close> that the channel reaches with the counter still below \<open>2^53\<close>, the
  \<^verbatim>\<open>call\<close> messages sent so far carry the nonces 1, 2, ... up to the counter, each once,
  and the in-flight records hold promises that are all different. A call through a live
  handle sends the counter as its nonce, adds one to the counter and files its record, with
  the promise given to the caller, under that nonce, where no record was. A record filed
  under \<open>n\<close> stays through every later run of events that holds neither a completion for
  \<open>n\<close> nor the close, in whatever order the completions of other calls arrive; the
  \<^verbatim>\<open>error\<close> message for \<open>n\<close> that comes then, or the \<^verbatim>\<open>result\<close> message for \<open>n\<close> on whose
  value \<^verbatim>\<open>validate\<close> returns, settles the promise of that record, and nothing else (a
  \<^verbatim>\<open>result\<close> by the outcome of its validation). This is stated for function names that are
  no members of \<^verbatim>\<open>Object.prototype\<close>.
\<close>

theorem nonces_fresh_and_completions_matched:
  assumes "createChannel pubs = Inr s0" and "s = run s0 es"
    and "list_all (\<lambda>d. plain_name (lfd_name d)) pubs" and "list_all plain_event es"
    and "counter s < nonce_limit"
  shows "counter s0 = 1 \<and>
    call_nonces (wire s) = [1..<counter s] \<and>
    distinct (call_nonces (wire s)) \<and>
    distinct (map (\<lambda>e. rpc_pid (snd e)) (inFlight s)) \<and>
    \<not> has_key (inFlight s) (counter s) \<and>
    wire (invoke s (RemoteFunction (Live name returns)) args) =
      wire s @ [Call (counter s) name (JArr args)] \<and>
    counter (invoke s (RemoteFunction (Live name returns)) args) = counter s + 1 \<and>
    map_of (inFlight (invoke s (RemoteFunction (Live name returns)) args)) (counter s) =
      Some \<lparr> rpc_name = name, rpc_returns = returns, rpc_pid = promises s \<rparr> \<and>
    (\<forall>n rpc es1. map_of (inFlight s) n = Some rpc \<and> \<not> list_ex (completes n) es1 \<and>
       list_all plain_event es1 \<longrightarrow>
       map_of (inFlight (run s es1)) n = Some rpc \<and>
       settled (receive (run s es1) (ErrorMsg n msg)) =
         settled (run s es1) @ [(rpc_pid rpc, Failed msg)] \<and>
       (validate v (rpc_returns rpc) = Inr True \<longrightarrow>
          settled (receive (run s es1) (Result n v)) =
            settled (run s es1) @ [(rpc_pid rpc, Resolved v)]) \<and>
       (validate v (rpc_returns rpc) = Inr False \<longrightarrow>
          settled (receive (run s es1) (Result n v)) = settled (run s es1) @
            [(rpc_pid rpc,
              Failed (Text (''invalid return value from rpc '' @ rpc_name rpc)))]))"
proof -
  have inv: "nonce_inv s"
    using assms(1,2) createChannel_nonce_inv nonce_inv_run by simp
  have a: "counter s0 = 1"
    using assms(1) by (rule createChannel_counter)
  have b: "call_nonces (wire s) = [1..<counter s]"
    using inv assms(5) by (simp add: nonce_inv_def)
  have c: "distinct (call_nonces (wire s))"
    by (simp add: b)
  have d: "\<not> has_key (inFlight s) (counter s)"
    using inv assms(5) by (rule counter_not_in_flight)
  have p: "distinct (map (\<lambda>e. rpc_pid (snd e)) (inFlight s))"
    using waiting_distinct [OF assms(1), of es] assms(2) by (simp add: waiting_pids_def)
  have k: "map_of (inFlight s) n = Some rpc \<Longrightarrow> n < counter s" for n rpc
    using inv assms(5) by (rule inFlight_key_below_counter)
  have e: "\<forall>n rpc es1. map_of (inFlight s) n = Some rpc \<and> \<not> list_ex (completes n) es1 \<and>
       list_all plain_event es1 \<longrightarrow>
       map_of (inFlight (run s es1)) n = Some rpc \<and>
       settled (receive (run s es1) (ErrorMsg n msg)) =
         settled (run s es1) @ [(rpc_pid rpc, Failed msg)] \<and>
       (validate v (rpc_returns rpc) = Inr True \<longrightarrow>
          settled (receive (run s es1) (Result n v)) =
            settled (run s es1) @ [(rpc_pid rpc, Resolved v)]) \<and>
       (validate v (rpc_returns rpc) = Inr False \<longrightarrow>
          settled (receive (run s es1) (Result n v)) = settled (run s es1) @
            [(rpc_pid rpc,
              Failed (Text (''invalid return value from rpc '' @ rpc_name rpc)))])"
    using stable_run k completion_settles_record by blast
  have i: "counter (invoke s (RemoteFunction (Live name returns)) args) = counter s + 1"
    using live_call_draws_counter [of s name returns args] assms(5)
    by (simp add: increment_below)
  show ?thesis
    using a b c d e p i live_call_draws_counter [of s name returns args] by blast
qed

text \<open>
  The test of the repository: four calls of \<^verbatim>\<open>add\<close> are pending, with the nonces 1 to 4
  and the promises 0 to 3. The call with nonce 2 is still on file after the results for
  4 and 3 have come, and its own result then resolves promise 1.
\<close>

theorem nonces_witness:
  "createChannel [] = Inr fresh \<and>
   call_nonces (wire four_pending) = [1, 2, 3, 4] \<and>
   settled (receive (run four_pending
       [Receive (Result 4 (JNum 15)), Receive (Result 3 (JNum 11))]) (Result 2 (JNum 7))) =
     [(3, Resolved (JNum 15)), (2, Resolved (JNum 11)), (1, Resolved (JNum 7))]"
proof -
  let ?rpc = "\<lparr> rpc_name = ''add'', rpc_returns = JNum 2, rpc_pid = 1 \<rparr>"
  let ?es = "[Receive publish_add, UserCall ''add'' [JNum 1, JNum 2],
    UserCall ''add'' [JNum 3, JNum 4], UserCall ''add'' [JNum 5, JNum 6],
    UserCall ''add'' [JNum 7, JNum 8]]"
  let ?es1 = "[Receive (Result 4 (JNum 15)), Receive (Result 3 (JNum 11))]"
  have h1: "createChannel [] = Inr fresh"
    by (simp add: createChannel_def)
  have h2: "four_pending = run fresh ?es"
    by (simp add: four_pending_def two_pending_def one_pending_def run_def)
  have h3: "list_all (\<lambda>d. plain_name (lfd_name d)) []"
    by simp
  have h4: "list_all plain_event ?es" "list_all plain_event ?es1"
    by (simp_all add: publish_add_def plain_name_def object_prototype_members_def)
  note pending = four_pending_def two_pending_def one_pending_def publish_add_def
  have c: "counter four_pending = 5"
    by (simp add: scenario pending)
  have h5: "counter four_pending < nonce_limit"
    by (simp add: c nonce_limit_def)
  have r: "map_of (inFlight four_pending) 2 = Some ?rpc"
    by (simp add: scenario pending)
  have n: "\<not> list_ex (completes 2) ?es1"
    by simp
  have v: "validate (JNum 7) (rpc_returns ?rpc) = Inr True"
    by (simp add: validate.simps)
  have s: "settled (run four_pending ?es1) =
      [(3, Resolved (JNum 15)), (2, Resolved (JNum 11))]"
    by (simp add: scenario pending validate.simps)
  have u: "[1..<5] = [1, 2, 3, 4::nat]"
    by (simp add: upt_rec)
  note T = nonces_fresh_and_completions_matched
    [OF h1 h2 h3 h4(1) h5, of "''add''" "JNum 2" "[]" "Text ''late''" "JNum 7"]
  have t1: "call_nonces (wire four_pending) = [1..<counter four_pending]"
    using T by blast
  have t2: "map_of (inFlight four_pending) 2 = Some ?rpc \<and> \<not> list_ex (completes 2) ?es1 \<and>
      list_all plain_event ?es1 \<longrightarrow>
      (validate (JNum 7) (rpc_returns ?rpc) = Inr True \<longrightarrow>
       settled (receive (run four_pending ?es1) (Result 2 (JNum 7))) =
         settled (run four_pending ?es1) @ [(rpc_pid ?rpc, Resolved (JNum 7))])"
    using T by blast
  have "settled (receive (run four_pending ?es1) (Result 2 (JNum 7))) =
      settled (run four_pending ?es1) @ [(rpc_pid ?rpc, Resolved (JNum 7))]"
    using t2 r n v h4(2) by blast
  then show ?thesis
    using h1 t1 c u s by simp
qed

subsection \<open>Calling a function that is not yet known\<close>

text \<open>
  Claim C1. A call to a name without a remote function handle is meant to send the
  \<^verbatim>\<open>expect\<close> message first and to suspend then, so that the \<^verbatim>\<open>expect\<close> is on the wire
  before the \<^verbatim>\<open>publish\<close> for the name is processed. The wrapper does it the other way
  round: it awaits the promise that only a \<^verbatim>\<open>publish\<close> message resolves, and sends
  \<^verbatim>\<open>expect\<close> after that. On a new channel the call \<^verbatim>\<open>add(1, 9)\<close> queues its waiter and
  sends nothing; the wire is still empty when the \<^verbatim>\<open>publish\<close> for \<^verbatim>\<open>add\<close> has been
  processed; only the released continuation sends \<^verbatim>\<open>expect\<close>, and the \<^verbatim>\<open>call\<close> right
  after it.
\<close>

theorem expect_is_sent_after_publish:
  "wire (run fresh [UserCall ''add'' [JNum 1, JNum 9]]) = [] \<and>
   map_of (expected (run fresh [UserCall ''add'' [JNum 1, JNum 9]])) ''add'' =
     Some [\<lparr> w_pid = 0, w_args = [JNum 1, JNum 9], w_released = False \<rparr>] \<and>
   wire (run fresh [UserCall ''add'' [JNum 1, JNum 9], Receive publish_add]) = [] \<and>
   wire (run fresh [UserCall ''add'' [JNum 1, JNum 9], Receive publish_add, RunReleased]) =
     [Expect ''add'', Call 1 ''add'' (JArr [JNum 1, JNum 9])]"
  by (simp add: scenario publish_add_def)

lemma unknown_call_sends_nothing:
  "nm \<noteq> ''publish'' \<Longrightarrow> \<not> has_key (remoteFunctions s) nm \<Longrightarrow>
   wire (step s (UserCall nm cargs)) = wire s"
  by (auto simp: get_def has_key_def new_promise_def enqueue_def map_of_eq_None_iff [symmetric]
        split: option.splits)

subsection \<open>The expectation queue\<close>

lemma expected_call_handle [simp]: "expected (call_handle s h p cargs) = expected s"
  by (cases h) (simp_all add: call_live_def send_def settle_def Let_def)

lemma expected_keys_invoke:
  "has_key (expected s) name \<Longrightarrow> has_key (expected (invoke s c cargs)) name"
  by (cases c)
     (auto simp: has_key_def new_promise_def enqueue_def keys_update split: option.splits)

lemma expected_keys_receive:
  "has_key (expected s) name \<Longrightarrow> has_key (expected (receive s m)) name"
  by (cases m)
     (auto simp: has_key_def send_def sendFunction_def settle_def drain_def keys_update
           split: option.splits sum.splits bool.splits jsval.splits)

lemma expected_keys_step:
  "has_key (expected s) name \<Longrightarrow> has_key (expected (step s e)) name"
proof (cases e)
  case (UserPublish d)
  assume "has_key (expected s) name"
  then show ?thesis using UserPublish
    by (auto simp: publishFunction_def sendFunction_def send_def split: sum.splits if_splits)
next
  case (UserCall nm cargs)
  assume "has_key (expected s) name"
  then show ?thesis using UserCall by (auto simp: expected_keys_invoke split: property.splits)
next
  case (UserInvoke c cargs)
  assume "has_key (expected s) name"
  then show ?thesis using UserInvoke by (simp add: expected_keys_invoke)
next
  case (Receive m)
  assume "has_key (expected s) name"
  then show ?thesis using Receive by (simp add: expected_keys_receive)
next
  case Close
  assume "has_key (expected s) name"
  then show ?thesis using Close by (simp add: close_def)
next
  case RunReleased
  assume "has_key (expected s) name"
  then show ?thesis using RunReleased
    by (auto simp: run_released_def resume_waiter_def Let_def send_def settle_def
          split: list.splits option.splits)
next
  case (Finish i)
  assume "has_key (expected s) name"
  then show ?thesis using Finish
    by (simp add: finish_def Let_def send_def split: outcome.splits)
qed

lemma expected_keys_run:
  "has_key (expected s) name \<Longrightarrow> has_key (expected (run s es)) name"
  unfolding run_def by (induction es arbitrary: s) (simp_all add: expected_keys_step)

lemma call_unknown_enqueues:
  "nm \<noteq> ''publish'' \<Longrightarrow> \<not> has_key (remoteFunctions s) nm \<Longrightarrow>
   expected (step s (UserCall nm cargs)) =
     (case map_of (expected s) nm of
        None \<Rightarrow>
          expected s @ [(nm, [\<lparr> w_pid = promises s, w_args = cargs, w_released = False \<rparr>])]
      | Some ws \<Rightarrow>
          AList.update nm (ws @ [\<lparr> w_pid = promises s, w_args = cargs, w_released = False \<rparr>])
            (expected s))"
  by (auto simp: get_def has_key_def new_promise_def enqueue_def update_absent_appends
        map_of_eq_None_iff [symmetric] split: option.splits)

lemma publish_drains_in_order:
  "\<not> has_key (remoteFunctions s) name \<Longrightarrow> map_of (expected s) name = Some ws \<Longrightarrow>
   released (receive s (Publish name a r)) =
     released s @ map (Pair name) (filter (\<lambda>w. \<not> w_released w) ws) \<and>
   map_of (expected (receive s (Publish name a r))) name =
     Some (map (\<lambda>w. w\<lparr> w_released := True \<rparr>) ws)"
  by (simp add: drain_def update_conv)

text \<open>
  Claim C7, as stated: once the \<^verbatim>\<open>publish\<close> for a name has arrived and its waiters have been
  released, the expectation table has no entry for the name any more. The code never
  deletes from \<^verbatim>\<open>expected\<close>: after the call \<^verbatim>\<open>add(1, 9)\<close>, the \<^verbatim>\<open>publish\<close> for \<^verbatim>\<open>add\<close> and
  the continuation of the released waiter, the entry for \<^verbatim>\<open>add\<close> is still there.
\<close>

theorem expected_entry_persists_counterexample:
  "has_key (expected (run fresh
      [UserCall ''add'' [JNum 1, JNum 9], Receive publish_add, RunReleased])) ''add''"
  by (simp add: scenario publish_add_def)

text \<open>
  Claim C7, amended. This is stated for a function name \<open>nm\<close> that is no member of
  \<^verbatim>\<open>Object.prototype\<close>, in a channel \<open>s\<close> whose tables hold such names only, and for later
  events \<open>es\<close> with such names. A call to \<open>nm\<close> without a remote function handle sends
  nothing and queues its waiter under \<open>nm\<close>: in a new entry when there is none, at the end
  of the entry otherwise. When a \<^verbatim>\<open>publish\<close> message for \<open>nm\<close> arrives and there is no
  handle yet, the waiters of the entry that are still waiting are released in the order in
  which they were queued. The entry is not removed: it stays in the expectation table,
  holding the released waiters, through everything that happens later.
\<close>

theorem expectation_entry_created_drained_kept:
  assumes "plain_name nm" and "plain_tables s" and "list_all plain_event es"
  shows "(nm \<noteq> ''publish'' \<and> \<not> has_key (remoteFunctions s) nm \<longrightarrow>
      wire (step s (UserCall nm cargs)) = wire s \<and>
      expected (step s (UserCall nm cargs)) =
        (case map_of (expected s) nm of
           None \<Rightarrow>
             expected s @ [(nm, [\<lparr> w_pid = promises s, w_args = cargs, w_released = False \<rparr>])]
         | Some ws \<Rightarrow>
             AList.update nm
               (ws @ [\<lparr> w_pid = promises s, w_args = cargs, w_released = False \<rparr>])
               (expected s))) \<and>
   (\<not> has_key (remoteFunctions s) nm \<and> map_of (expected s) nm = Some ws \<longrightarrow>
      released (receive s (Publish nm a r)) =
        released s @ map (Pair nm) (filter (\<lambda>w. \<not> w_released w) ws) \<and>
      map_of (expected (receive s (Publish nm a r))) nm =
        Some (map (\<lambda>w. w\<lparr> w_released := True \<rparr>) ws)) \<and>
   (has_key (expected s) nm \<longrightarrow> has_key (expected (run s es)) nm)"
  using unknown_call_sends_nothing [of nm s cargs] call_unknown_enqueues [of nm s cargs]
    publish_drains_in_order [of s nm ws a r] expected_keys_run [of s nm es]
  by blast

text \<open>
  Two calls of \<^verbatim>\<open>add\<close> on a new channel: the first makes the entry, the second joins it,
  the \<^verbatim>\<open>publish\<close> for \<^verbatim>\<open>add\<close> releases both in this order, and the entry is still there when
  both continuations have run.
\<close>

theorem expectation_entry_witness:
  "expected (step fresh (UserCall ''add'' [JNum 1, JNum 9])) =
     [(''add'', [\<lparr> w_pid = 0, w_args = [JNum 1, JNum 9], w_released = False \<rparr>])] \<and>
   released (receive (run fresh
       [UserCall ''add'' [JNum 1, JNum 9], UserCall ''add'' [JNum 2, JNum 9]]) publish_add) =
     [(''add'', \<lparr> w_pid = 0, w_args = [JNum 1, JNum 9], w_released = False \<rparr>),
      (''add'', \<lparr> w_pid = 1, w_args = [JNum 2, JNum 9], w_released = False \<rparr>)] \<and>
   has_key (expected (run (run fresh
       [UserCall ''add'' [JNum 1, JNum 9], UserCall ''add'' [JNum 2, JNum 9]])
       [Receive publish_add, RunReleased, RunReleased])) ''add''"
proof -
  let ?w0 = "\<lparr> w_pid = 0, w_args = [JNum 1, JNum 9], w_released = False \<rparr>"
  let ?w1 = "\<lparr> w_pid = 1, w_args = [JNum 2, JNum 9], w_released = False \<rparr>"
  let ?s2 = "run fresh [UserCall ''add'' [JNum 1, JNum 9], UserCall ''add'' [JNum 2, JNum 9]]"
  let ?es = "[Receive publish_add, RunReleased, RunReleased]"
  have a: "''add'' \<noteq> ''publish''" "\<not> has_key (remoteFunctions fresh) ''add''"
    "map_of (expected fresh) ''add'' = None" "expected fresh = []" "promises fresh = 0"
    by (simp_all add: fresh_def has_key_def)
  have b: "\<not> has_key (remoteFunctions ?s2) ''add''"
    "map_of (expected ?s2) ''add'' = Some [?w0, ?w1]" "released ?s2 = []"
    "has_key (expected ?s2) ''add''"
    by (simp_all add: scenario)
  have p: "plain_name ''add''" "list_all plain_event []" "list_all plain_event ?es"
    by (simp_all add: publish_add_def plain_name_def object_prototype_members_def)
  have q: "plain_tables fresh" "plain_tables ?s2"
    by (simp_all add: scenario plain_tables_def plain_name_def object_prototype_members_def)
  show ?thesis
    using expectation_entry_created_drained_kept
        [OF p(1) q(1) p(2), of "[JNum 1, JNum 9]" "[]" "JNum 0" "JNum 0"]
      expectation_entry_created_drained_kept
        [OF p(1) q(2) p(3), of "[]" "[?w0, ?w1]" "JArr [H_number, H_number]" H_number] a b
    by (simp add: publish_add_def)
qed

end
